theory Spec2Isabelle
  imports Main
begin

unbundle bit_operations_syntax

section \<open>Constants and keys\<close>

text \<open>
  The embedding follows the last snapshot of the editor (the one with rows, tabs,
  scrolling and character insertion). C \<open>int\<close> values are modelled as \<open>int\<close>: the
  counters of the program are bounded by buffer sizes held in memory, so no claim
  below depends on 32-bit wrap-around. A byte of the program (C \<open>char\<close>) is a HOL
  \<open>char\<close>.
\<close>

definition KILO_TAB_STOP :: int where
  "KILO_TAB_STOP = 4"

definition CTRL_KEY :: "int \<Rightarrow> int" where
  "CTRL_KEY k = k AND 0x1f"

text \<open>\<open>enum editorKey\<close>: the named keys start at 1000, above every byte value.\<close>

definition ARROW_LEFT :: int where "ARROW_LEFT = 1000"
definition ARROW_RIGHT :: int where "ARROW_RIGHT = 1001"
definition ARROW_UP :: int where "ARROW_UP = 1002"
definition ARROW_DOWN :: int where "ARROW_DOWN = 1003"
definition DEL_KEY :: int where "DEL_KEY = 1004"
definition HOME_KEY :: int where "HOME_KEY = 1005"
definition END_KEY :: int where "END_KEY = 1006"
definition PAGE_UP :: int where "PAGE_UP = 1007"
definition PAGE_DOWN :: int where "PAGE_DOWN = 1008"

text \<open>
  Integer promotion of a \<open>char\<close>. The signedness of \<open>char\<close> is implementation-defined;
  the model takes it signed, as on x86. Converting an \<open>int\<close> back to \<open>char\<close>
  (\<open>row->chars[at] = c\<close>) keeps the low eight bits, which is \<open>char_of\<close>.
\<close>

definition char_to_int :: "char \<Rightarrow> int" where
  "char_to_int c = (if of_char c < (128::int) then of_char c else of_char c - 256)"

text \<open>C's \<open>%\<close> truncates towards zero; HOL's \<open>mod\<close> rounds towards minus infinity.\<close>

definition c_rem :: "int \<Rightarrow> int \<Rightarrow> int" where
  "c_rem a b = sgn a * (\<bar>a\<bar> mod \<bar>b\<bar>)"

text \<open>
  What a call can do besides returning: leave the process (\<open>exit\<close> with its status,
  also through \<open>die\<close>), run into undefined behaviour of C (an access outside an
  array, a signed overflow), or never return.
\<close>

datatype 'a result = Ok 'a | Exit int | Undefined | NoReturn

section \<open>Rows\<close>

text \<open>
  \<open>struct erow\<close>. The pair \<open>chars\<close>/\<open>size\<close> is a byte list and its length, and so is
  \<open>render\<close>/\<open>rsize\<close>; both buffers carry a terminating NUL byte one past the end.
\<close>

record erow =
  chars :: string
  render :: string

definition erow_size :: "erow \<Rightarrow> int" where
  "erow_size r = int (length (chars r))"

definition erow_rsize :: "erow \<Rightarrow> int" where
  "erow_rsize r = int (length (render r))"

text \<open>
  Reading \<open>row->chars[j]\<close>: the bytes, then the NUL terminator at index \<open>size\<close>; any
  other index is outside the allocation.
\<close>

definition chars_at :: "erow \<Rightarrow> int \<Rightarrow> char option" where
  "chars_at r j =
     (if 0 \<le> j \<and> j < erow_size r then Some (chars r ! nat j)
      else if j = erow_size r then Some (CHR 0x00)
      else None)"

function editorRowCxToRx_loop :: "erow \<Rightarrow> int \<Rightarrow> int \<Rightarrow> int \<Rightarrow> int result" where
  "editorRowCxToRx_loop r cx0 j rx0 =
     (if j < cx0 then
        (case chars_at r j of
           None \<Rightarrow> Undefined
         | Some c \<Rightarrow>
             editorRowCxToRx_loop r cx0 (j + 1)
               ((if c = CHR 0x09
                 then rx0 + ((KILO_TAB_STOP - 1) - c_rem rx0 KILO_TAB_STOP)
                 else rx0) + 1))
      else Ok rx0)"
  by pat_completeness auto
termination
  by (relation "measure (\<lambda>(r, cx0, j, rx0). nat (cx0 - j))") simp_all

declare editorRowCxToRx_loop.simps [simp del]

definition editorRowCxToRx :: "erow \<Rightarrow> int \<Rightarrow> int result" where
  "editorRowCxToRx r cx0 = editorRowCxToRx_loop r cx0 0 0"

text \<open>The inner \<open>while (idx % KILO_TAB_STOP != 0)\<close> of \<open>editorUpdateRow\<close>.\<close>

function tab_fill :: "string \<Rightarrow> string" where
  "tab_fill buf =
     (if c_rem (int (length buf)) KILO_TAB_STOP \<noteq> 0 then tab_fill (buf @ [CHR '' ''])
      else buf)"
  by pat_completeness auto
termination
proof (relation "measure (\<lambda>buf. (4 - length buf mod 4) mod 4)")
  show "wf (measure (\<lambda>buf. (4 - length buf mod 4) mod 4))"
    by simp
next
  fix buf :: string
  assume "c_rem (int (length buf)) KILO_TAB_STOP \<noteq> 0"
  then have "int (length buf) mod 4 \<noteq> 0"
    by (auto simp: c_rem_def KILO_TAB_STOP_def)
  then have "length buf mod 4 \<noteq> 0"
    by presburger
  moreover have "length buf mod 4 < 4"
    by simp
  ultimately have "(4 - Suc (length buf) mod 4) mod 4 < (4 - length buf mod 4) mod 4"
    by (simp add: mod_Suc) arith
  then show "(buf @ [CHR '' ''], buf) \<in> measure (\<lambda>buf. (4 - length buf mod 4) mod 4)"
    by simp
qed

declare tab_fill.simps [simp del]

text \<open>The copying loop of \<open>editorUpdateRow\<close>: \<open>buf\<close> is \<open>render[0..idx)\<close>.\<close>

fun editorUpdateRow_loop :: "string \<Rightarrow> string \<Rightarrow> string" where
  "editorUpdateRow_loop [] buf = buf"
| "editorUpdateRow_loop (c # cs) buf =
     (if c = CHR 0x09 then editorUpdateRow_loop cs (tab_fill (buf @ [CHR '' '']))
      else editorUpdateRow_loop cs (buf @ [c]))"

definition editorUpdateRow :: "erow \<Rightarrow> erow" where
  "editorUpdateRow r = r\<lparr>render := editorUpdateRow_loop (chars r) []\<rparr>"

text \<open>One iteration of the loop body of \<open>editorRowCxToRx\<close>, on the byte read.\<close>

definition rx_step :: "int \<Rightarrow> char \<Rightarrow> int" where
  "rx_step rx0 c =
     (if c = CHR 0x09 then rx0 + ((KILO_TAB_STOP - 1) - c_rem rx0 KILO_TAB_STOP) else rx0) + 1"

text \<open>
  \<open>editorRowInsertChar\<close>: an index outside \<open>[0, size]\<close> becomes \<open>size\<close>; \<open>memmove\<close>
  shifts the tail (and the NUL) one place right; the \<open>int\<close> is stored as a \<open>char\<close>.
\<close>

definition editorRowInsertChar :: "erow \<Rightarrow> int \<Rightarrow> int \<Rightarrow> erow" where
  "editorRowInsertChar r at0 c =
     (let at1 = (if at0 < 0 \<or> at0 > erow_size r then erow_size r else at0)
      in editorUpdateRow
           (r\<lparr>chars := take (nat at1) (chars r) @ [char_of c] @ drop (nat at1) (chars r)\<rparr>))"

section \<open>The editor state\<close>

text \<open>
  \<open>struct editorConfig\<close> without the saved terminal attributes. The array \<open>row\<close> and
  its length \<open>numrows\<close> are one list.
\<close>

record editorConfig =
  cx :: int
  cy :: int
  rx :: int
  rowoff :: int
  coloff :: int
  screenrows :: int
  screencols :: int
  row :: "erow list"
  filename :: "string option"
  statusmsg :: string
  statusmsg_time :: int

definition numrows :: "editorConfig \<Rightarrow> int" where
  "numrows E = int (length (row E))"

text \<open>Reading \<open>E.row[i]\<close>: defined for \<open>0 \<le> i < numrows\<close> only.\<close>

definition row_at :: "editorConfig \<Rightarrow> int \<Rightarrow> erow option" where
  "row_at E i = (if 0 \<le> i \<and> i < numrows E then Some (row E ! nat i) else None)"

definition editorAppendRow :: "string \<Rightarrow> editorConfig \<Rightarrow> editorConfig" where
  "editorAppendRow s E = E\<lparr>row := row E @ [editorUpdateRow \<lparr>chars = s, render = []\<rparr>]\<rparr>"

definition editorInsertChar :: "int \<Rightarrow> editorConfig \<Rightarrow> editorConfig result" where
  "editorInsertChar c E =
     (let E1 = (if cy E = numrows E then editorAppendRow [] E else E)
      in case row_at E1 (cy E1) of
           None \<Rightarrow> Undefined
         | Some r \<Rightarrow>
             Ok (E1\<lparr>row := (row E1)[nat (cy E1) := editorRowInsertChar r (cx E1) c],
                    cx := cx E1 + 1\<rparr>))"

section \<open>Loading a file\<close>

text \<open>The loop of \<open>editorOpen\<close> that drops trailing newlines and carriage returns.\<close>

function strip_eol :: "string \<Rightarrow> string" where
  "strip_eol line =
     (if line \<noteq> [] \<and> (last line = CHR 0x0A \<or> last line = CHR 0x0D)
      then strip_eol (butlast line) else line)"
  by pat_completeness auto
termination
  by (relation "measure length") simp_all

declare strip_eol.simps [simp del]

fun editorOpen_loop :: "string list \<Rightarrow> editorConfig \<Rightarrow> editorConfig" where
  "editorOpen_loop [] E = E"
| "editorOpen_loop (line # rest) E = editorOpen_loop rest (editorAppendRow (strip_eol line) E)"

text \<open>
  \<open>editorOpen\<close>. The file is given by what the C library returns: \<open>None\<close> when \<open>fopen\<close>
  fails, else the lines \<open>getline\<close> yields in order, each with its terminator.
\<close>

definition editorOpen :: "string \<Rightarrow> string list option \<Rightarrow> editorConfig \<Rightarrow> editorConfig result" where
  "editorOpen name file E =
     (case file of
        None \<Rightarrow> Exit 1
      | Some lines \<Rightarrow> Ok (editorOpen_loop lines (E\<lparr>filename := Some name\<rparr>)))"

text \<open>\<open>initEditor\<close>, on the result of \<open>getWindowSize\<close> (\<open>None\<close> when it returns -1).\<close>

definition initEditor :: "(int \<times> int) option \<Rightarrow> editorConfig result" where
  "initEditor ws =
     (case ws of
        None \<Rightarrow> Exit 1
      | Some (rows, cols) \<Rightarrow>
          Ok \<lparr>cx = 0, cy = 0, rx = 0, rowoff = 0, coloff = 0,
              screenrows = rows - 2, screencols = cols,
              row = [], filename = None, statusmsg = [], statusmsg_time = 0\<rparr>)"

section \<open>Scrolling\<close>

definition editorScroll :: "editorConfig \<Rightarrow> editorConfig result" where
  "editorScroll E =
     (case (if cy E < numrows E
            then (case row_at E (cy E) of
                    None \<Rightarrow> Undefined
                  | Some r \<Rightarrow> editorRowCxToRx r (cx E))
            else Ok 0) of
        Ok x \<Rightarrow>
          (let E1 = E\<lparr>rx := x\<rparr>;
               E2 = (if cy E1 < rowoff E1 then E1\<lparr>rowoff := cy E1\<rparr> else E1);
               E3 = (if cy E2 \<ge> rowoff E2 + screenrows E2
                     then E2\<lparr>rowoff := cy E2 - screenrows E2 + 1\<rparr> else E2);
               E4 = (if rx E3 < coloff E3 then E3\<lparr>coloff := rx E3\<rparr> else E3);
               E5 = (if rx E4 \<ge> coloff E4 + screencols E4
                     then E4\<lparr>coloff := rx E4 - screencols E4 + 1\<rparr> else E4)
           in Ok E5)
      | Exit n \<Rightarrow> Exit n
      | Undefined \<Rightarrow> Undefined
      | NoReturn \<Rightarrow> NoReturn)"

section \<open>Cursor motion\<close>

text \<open>
  \<open>editorMoveCursor\<close>, first its \<open>switch\<close>. The \<open>row\<close> pointer taken on entry is read by
  \<open>ARROW_RIGHT\<close> only. A row index below zero or beyond the array is an access
  outside it.
\<close>

definition editorMoveCursor_switch :: "int \<Rightarrow> editorConfig \<Rightarrow> editorConfig result" where
  "editorMoveCursor_switch key E =
     (if key = ARROW_LEFT then
        (if cx E \<noteq> 0 then Ok (E\<lparr>cx := cx E - 1\<rparr>)
         else if cy E > 0 then
           (case row_at E (cy E - 1) of
              None \<Rightarrow> Undefined
            | Some r \<Rightarrow> Ok (E\<lparr>cy := cy E - 1, cx := erow_size r\<rparr>))
         else Ok E)
      else if key = ARROW_RIGHT then
        (if cy E \<ge> numrows E then Ok E
         else case row_at E (cy E) of
                None \<Rightarrow> Undefined
              | Some r \<Rightarrow>
                  if cx E < erow_size r then Ok (E\<lparr>cx := cx E + 1\<rparr>)
                  else if cx E = erow_size r then Ok (E\<lparr>cy := cy E + 1, cx := 0\<rparr>)
                  else Ok E)
      else if key = ARROW_UP then
        (if cy E \<noteq> 0 then Ok (E\<lparr>cy := cy E - 1\<rparr>) else Ok E)
      else if key = ARROW_DOWN then
        (if cy E < numrows E then Ok (E\<lparr>cy := cy E + 1\<rparr>) else Ok E)
      else Ok E)"

text \<open>
  The end of \<open>editorMoveCursor\<close>: the row under the cursor is looked up again and the
  column is cut back to its length (0 when there is no such row).
\<close>

definition editorMoveCursor_snap :: "editorConfig \<Rightarrow> editorConfig result" where
  "editorMoveCursor_snap E =
     (if cy E \<ge> numrows E then
        (if cx E > 0 then Ok (E\<lparr>cx := 0\<rparr>) else Ok E)
      else case row_at E (cy E) of
             None \<Rightarrow> Undefined
           | Some r \<Rightarrow> if cx E > erow_size r then Ok (E\<lparr>cx := erow_size r\<rparr>) else Ok E)"

definition editorMoveCursor :: "int \<Rightarrow> editorConfig \<Rightarrow> editorConfig result" where
  "editorMoveCursor key E =
     (case editorMoveCursor_switch key E of
        Ok E1 \<Rightarrow> editorMoveCursor_snap E1
      | Exit n \<Rightarrow> Exit n
      | Undefined \<Rightarrow> Undefined
      | NoReturn \<Rightarrow> NoReturn)"

section \<open>Keys\<close>

text \<open>
  What one \<open>read(STDIN_FILENO, &c, 1)\<close> can give in raw mode with \<open>VMIN = 0\<close>,
  \<open>VTIME = 1\<close>: a byte (return value 1), a timeout (0), or -1 with \<open>errno\<close> either
  \<open>EAGAIN\<close> or something else. The input is the list of these in order; once the
  list is used up the terminal stays silent, so every later read times out.
\<close>

datatype read_result = Byte char | Timeout | Eagain | ReadError

text \<open>The first loop of \<open>editorReadKey\<close>: wait for one byte; \<open>die\<close> on a real error.\<close>

fun editorReadKey_wait :: "read_result list \<Rightarrow> (char \<times> read_result list) result" where
  "editorReadKey_wait [] = NoReturn"
| "editorReadKey_wait (Byte c # inp) = Ok (c, inp)"
| "editorReadKey_wait (Timeout # inp) = editorReadKey_wait inp"
| "editorReadKey_wait (Eagain # inp) = editorReadKey_wait inp"
| "editorReadKey_wait (ReadError # inp) = Exit 1"

text \<open>A read inside an escape sequence: anything but one byte read gives up.\<close>

fun read_seq :: "read_result list \<Rightarrow> char option \<times> read_result list" where
  "read_seq [] = (None, [])"
| "read_seq (Byte c # inp) = (Some c, inp)"
| "read_seq (Timeout # inp) = (None, inp)"
| "read_seq (Eagain # inp) = (None, inp)"
| "read_seq (ReadError # inp) = (None, inp)"

definition editorReadKey :: "read_result list \<Rightarrow> (int \<times> read_result list) result" where
  "editorReadKey inp =
     (case editorReadKey_wait inp of
        Ok (c, inp1) \<Rightarrow>
          if c = CHR 0x1B then
            (case read_seq inp1 of
               (None, inp2) \<Rightarrow> Ok (0x1b, inp2)
             | (Some s0, inp2) \<Rightarrow>
                 (case read_seq inp2 of
                    (None, inp3) \<Rightarrow> Ok (0x1b, inp3)
                  | (Some s1, inp3) \<Rightarrow>
                      if s0 = CHR ''['' then
                        if char_to_int s1 \<ge> char_to_int CHR ''0''
                           \<and> char_to_int s1 \<le> char_to_int CHR ''9'' then
                          (case read_seq inp3 of
                             (None, inp4) \<Rightarrow> Ok (0x1b, inp4)
                           | (Some s2, inp4) \<Rightarrow>
                               if s2 = CHR ''~'' then
                                 (if s1 = CHR ''1'' then Ok (HOME_KEY, inp4)
                                  else if s1 = CHR ''3'' then Ok (DEL_KEY, inp4)
                                  else if s1 = CHR ''4'' then Ok (END_KEY, inp4)
                                  else if s1 = CHR ''5'' then Ok (PAGE_UP, inp4)
                                  else if s1 = CHR ''6'' then Ok (PAGE_DOWN, inp4)
                                  else if s1 = CHR ''7'' then Ok (HOME_KEY, inp4)
                                  else if s1 = CHR ''8'' then Ok (END_KEY, inp4)
                                  else Ok (0x1b, inp4))
                               else Ok (0x1b, inp4))
                        else
                          (if s1 = CHR ''A'' then Ok (ARROW_UP, inp3)
                           else if s1 = CHR ''B'' then Ok (ARROW_DOWN, inp3)
                           else if s1 = CHR ''C'' then Ok (ARROW_RIGHT, inp3)
                           else if s1 = CHR ''D'' then Ok (ARROW_LEFT, inp3)
                           else if s1 = CHR ''H'' then Ok (HOME_KEY, inp3)
                           else if s1 = CHR ''F'' then Ok (END_KEY, inp3)
                           else Ok (0x1b, inp3))
                      else if s0 = CHR ''O'' then
                        (if s1 = CHR ''H'' then Ok (HOME_KEY, inp3)
                         else if s1 = CHR ''F'' then Ok (END_KEY, inp3)
                         else Ok (0x1b, inp3))
                      else Ok (0x1b, inp3)))
          else Ok (char_to_int c, inp1)
      | Exit n \<Rightarrow> Exit n
      | Undefined \<Rightarrow> Undefined
      | NoReturn \<Rightarrow> NoReturn)"

section \<open>Dispatching a key\<close>

text \<open>
  \<open>int times = E.screenrows; while (times--) editorMoveCursor(...)\<close>. A negative
  count never reaches zero without overflowing.
\<close>

function page_loop :: "int \<Rightarrow> int \<Rightarrow> editorConfig \<Rightarrow> editorConfig result" where
  "page_loop count key E =
     (if count = 0 then Ok E
      else if count < 0 then Undefined
      else case editorMoveCursor key E of
             Ok E1 \<Rightarrow> page_loop (count - 1) key E1
           | Exit n \<Rightarrow> Exit n
           | Undefined \<Rightarrow> Undefined
           | NoReturn \<Rightarrow> NoReturn)"
  by pat_completeness auto
termination
  by (relation "measure (\<lambda>(count, key, E). nat count)") simp_all

declare page_loop.simps [simp del]

text \<open>The \<open>switch\<close> of \<open>editorProcessKeypress\<close>, on the key that was read.\<close>

definition processKey :: "int \<Rightarrow> editorConfig \<Rightarrow> editorConfig result" where
  "processKey c E =
     (if c = CTRL_KEY (of_char CHR ''q'') then Exit 0
      else if c = HOME_KEY then Ok (E\<lparr>cx := 0\<rparr>)
      else if c = END_KEY then
        (if cy E < numrows E then
           (case row_at E (cy E) of
              None \<Rightarrow> Undefined
            | Some r \<Rightarrow> Ok (E\<lparr>cx := erow_size r\<rparr>))
         else Ok E)
      else if c = PAGE_UP \<or> c = PAGE_DOWN then
        (let E1 = (if c = PAGE_UP then E\<lparr>cy := rowoff E\<rparr>
                   else (let E0 = E\<lparr>cy := rowoff E + screenrows E - 1\<rparr>
                         in if cy E0 > numrows E0 then E0\<lparr>cy := numrows E0\<rparr> else E0))
         in page_loop (screenrows E1) (if c = PAGE_UP then ARROW_UP else ARROW_DOWN) E1)
      else if c = ARROW_UP \<or> c = ARROW_DOWN \<or> c = ARROW_LEFT \<or> c = ARROW_RIGHT then
        editorMoveCursor c E
      else editorInsertChar c E)"

definition editorProcessKeypress ::
    "read_result list \<Rightarrow> editorConfig \<Rightarrow> (editorConfig \<times> read_result list) result" where
  "editorProcessKeypress inp E =
     (case editorReadKey inp of
        Ok (c, inp1) \<Rightarrow>
          (case processKey c E of
             Ok E1 \<Rightarrow> Ok (E1, inp1)
           | Exit n \<Rightarrow> Exit n
           | Undefined \<Rightarrow> Undefined
           | NoReturn \<Rightarrow> NoReturn)
      | Exit n \<Rightarrow> Exit n
      | Undefined \<Rightarrow> Undefined
      | NoReturn \<Rightarrow> NoReturn)"

section \<open>Properties named by the specification\<close>

text \<open>
  The cursor invariant: \<open>0 \<le> cy \<le> numrows\<close>; \<open>0 \<le> cx \<le> row[cy].size\<close> when
  \<open>cy < numrows\<close>, else \<open>cx = 0\<close>.
\<close>

definition cursor_inv :: "editorConfig \<Rightarrow> bool" where
  "cursor_inv E \<longleftrightarrow>
     0 \<le> cy E \<and> cy E \<le> numrows E \<and>
     (if cy E < numrows E then 0 \<le> cx E \<and> cx E \<le> erow_size (row E ! nat (cy E))
      else cx E = 0)"

text \<open>
  The escape forms the specification lists, as the bytes that follow the escape byte,
  each with its key.
\<close>

definition spec_escape_table :: "(string \<times> int) list" where
  "spec_escape_table =
     [(''[1~'', HOME_KEY), (''[7~'', HOME_KEY), (''[3~'', DEL_KEY),
      (''[4~'', END_KEY), (''[8~'', END_KEY), (''[5~'', PAGE_UP), (''[6~'', PAGE_DOWN),
      (''[A'', ARROW_UP), (''[B'', ARROW_DOWN), (''[C'', ARROW_RIGHT), (''[D'', ARROW_LEFT),
      (''[H'', HOME_KEY), (''[F'', END_KEY),
      (''OH'', HOME_KEY), (''OF'', END_KEY)]"

text \<open>The reads after the escape byte begin with one of the listed forms.\<close>

definition spec_recognized :: "read_result list \<Rightarrow> bool" where
  "spec_recognized inp =
     list_ex (\<lambda>(form, key). take (length form) inp = map Byte form) spec_escape_table"

text \<open>A state whose cursor lies outside the window, to run \<open>editorScroll\<close> on.\<close>

definition scroll_example :: editorConfig where
  "scroll_example =
     \<lparr>cx = 3, cy = 1, rx = 0, rowoff = 5, coloff = 9, screenrows = 1, screencols = 2,
      row = [\<lparr>chars = ''abc'', render = ''abc''\<rparr>,
             \<lparr>chars = [CHR ''a'', CHR 0x09, CHR ''b''], render = ''a   b''\<rparr>],
      filename = None, statusmsg = [], statusmsg_time = 0\<rparr>"

text \<open>The reads of an escape sequence: the escape byte, the bytes of a form, the rest.\<close>

definition esc_seq :: "string \<Rightarrow> read_result list \<Rightarrow> read_result list" where
  "esc_seq form rest = Byte (CHR 0x1B) # map Byte form @ rest"

text \<open>
  The render column at which byte \<open>j\<close> of a row begins: the length of what the bytes
  before it render to.
\<close>

definition render_col :: "erow \<Rightarrow> nat \<Rightarrow> int" where
  "render_col r j = erow_rsize (editorUpdateRow (r\<lparr>chars := take j (chars r)\<rparr>))"

text \<open>The length of the row under the cursor, 0 when the cursor is past the last row.\<close>

definition cursor_rowlen :: "editorConfig \<Rightarrow> int" where
  "cursor_rowlen E = (if cy E \<ge> numrows E then 0 else erow_size (row E ! nat (cy E)))"

text \<open>
  The state of a session on a terminal two rows high, with no file: as \<open>initEditor\<close>
  leaves it, and after the first \<open>editorScroll\<close>.
\<close>

definition tiny_init :: editorConfig where
  "tiny_init =
     \<lparr>cx = 0, cy = 0, rx = 0, rowoff = 0, coloff = 0, screenrows = 0, screencols = 80,
      row = [], filename = None, statusmsg = [], statusmsg_time = 0\<rparr>"

definition tiny_scrolled :: editorConfig where
  "tiny_scrolled = tiny_init\<lparr>rowoff := 1\<rparr>"

text \<open>Dispatching a list of keys in order, stopping at the first that does not return.\<close>

fun processKeys :: "int list \<Rightarrow> editorConfig \<Rightarrow> editorConfig result" where
  "processKeys [] E = Ok E"
| "processKeys (c # cs) E =
     (case processKey c E of
        Ok E1 \<Rightarrow> processKeys cs E1
      | Exit n \<Rightarrow> Exit n
      | Undefined \<Rightarrow> Undefined
      | NoReturn \<Rightarrow> NoReturn)"

text \<open>
  The first \<open>n\<close> rounds of the \<open>while (1)\<close> of \<open>main\<close>. Of \<open>editorRefreshScreen\<close> only
  \<open>editorScroll\<close> changes the state; what it writes to the terminal is not modelled.
\<close>

fun main_loop ::
    "nat \<Rightarrow> read_result list \<Rightarrow> editorConfig \<Rightarrow> (editorConfig \<times> read_result list) result" where
  "main_loop 0 inp E = Ok (E, inp)"
| "main_loop (Suc n) inp E =
     (case editorScroll E of
        Ok E1 \<Rightarrow>
          (case editorProcessKeypress inp E1 of
             Ok (E2, inp1) \<Rightarrow> main_loop n inp1 E2
           | Exit k \<Rightarrow> Exit k
           | Undefined \<Rightarrow> Undefined
           | NoReturn \<Rightarrow> NoReturn)
      | Exit k \<Rightarrow> Exit k
      | Undefined \<Rightarrow> Undefined
      | NoReturn \<Rightarrow> NoReturn)"

text \<open>The lines \<open>getline\<close> yields for a file holding \<open>abc\<close>, a tab and \<open>x\<close>, and an empty line.\<close>

definition three_lines :: "string list" where
  "three_lines =
     [[CHR ''a'', CHR ''b'', CHR ''c'', CHR 0x0A], [CHR 0x09, CHR ''x'', CHR 0x0A], [CHR 0x0A]]"

text \<open>The editor state after loading them on a screen of the given size.\<close>

definition three_lines_loaded :: "string \<Rightarrow> int \<Rightarrow> int \<Rightarrow> editorConfig" where
  "three_lines_loaded name rows cols =
     \<lparr>cx = 0, cy = 0, rx = 0, rowoff = 0, coloff = 0,
      screenrows = rows - 2, screencols = cols,
      row = [\<lparr>chars = ''abc'', render = ''abc''\<rparr>,
             \<lparr>chars = [CHR 0x09, CHR ''x''], render = ''    x''\<rparr>,
             \<lparr>chars = [], render = []\<rparr>],
      filename = Some name, statusmsg = [], statusmsg_time = 0\<rparr>"

section \<open>The column projection\<close>

lemmas key_defs = ARROW_LEFT_def ARROW_RIGHT_def ARROW_UP_def ARROW_DOWN_def DEL_KEY_def
  HOME_KEY_def END_KEY_def PAGE_UP_def PAGE_DOWN_def

lemma c_rem_nonneg: "0 \<le> a \<Longrightarrow> 0 < b \<Longrightarrow> c_rem a b = a mod b"
  by (cases "a = 0") (simp_all add: c_rem_def)

lemma c_rem_tab_le: "c_rem a KILO_TAB_STOP \<le> 3"
proof -
  have "\<bar>a\<bar> mod 4 \<le> 3" "0 \<le> \<bar>a\<bar> mod 4"
    by simp_all
  then show ?thesis
    by (cases "a < 0"; cases "a = 0") (simp_all add: c_rem_def KILO_TAB_STOP_def)
qed

lemma rx_step_gt: "rx0 < rx_step rx0 c"
  using c_rem_tab_le [of rx0] by (simp add: rx_step_def KILO_TAB_STOP_def)

lemma chars_at_in: "0 \<le> j \<Longrightarrow> j < erow_size r \<Longrightarrow> chars_at r j = Some (chars r ! nat j)"
  by (simp add: chars_at_def)

lemma loop_unfold:
  "0 \<le> j \<Longrightarrow> j < cx0 \<Longrightarrow> j < erow_size r \<Longrightarrow>
   editorRowCxToRx_loop r cx0 j rx0 =
     editorRowCxToRx_loop r cx0 (j + 1) (rx_step rx0 (chars r ! nat j))"
  by (subst editorRowCxToRx_loop.simps) (simp add: chars_at_in rx_step_def)

lemma loop_done: "cx0 \<le> j \<Longrightarrow> editorRowCxToRx_loop r cx0 j rx0 = Ok rx0"
  by (subst editorRowCxToRx_loop.simps) simp

lemma loop_returns:
  "0 \<le> j \<Longrightarrow> cx0 \<le> erow_size r \<Longrightarrow>
   \<exists>x. editorRowCxToRx_loop r cx0 j rx0 = Ok x \<and> rx0 \<le> x"
proof (induction r cx0 j rx0 rule: editorRowCxToRx_loop.induct)
  case (1 r cx0 j rx0)
  show ?case
  proof (cases "j < cx0")
    case True
    with "1.prems" have in_row: "j < erow_size r"
      by simp
    have "\<exists>x. editorRowCxToRx_loop r cx0 (j + 1) (rx_step rx0 (chars r ! nat j)) = Ok x
            \<and> rx_step rx0 (chars r ! nat j) \<le> x"
      using "1.IH" [OF True chars_at_in [OF "1.prems"(1) in_row]] "1.prems"
      by (simp add: rx_step_def)
    then show ?thesis
      using rx_step_gt [of rx0 "chars r ! nat j"]
      by (auto simp: loop_unfold [OF "1.prems"(1) True in_row])
  next
    case False
    then show ?thesis
      by (simp add: loop_done)
  qed
qed

lemma loop_extend:
  "0 \<le> j \<Longrightarrow> j \<le> cx0 \<Longrightarrow> cx0 < erow_size r \<Longrightarrow>
   editorRowCxToRx_loop r cx0 j rx0 = Ok x \<Longrightarrow>
   editorRowCxToRx_loop r (cx0 + 1) j rx0 = Ok (rx_step x (chars r ! nat cx0))"
proof (induction r cx0 j rx0 rule: editorRowCxToRx_loop.induct)
  case (1 r cx0 j rx0)
  show ?case
  proof (cases "j < cx0")
    case True
    with "1.prems" have in_row: "j < erow_size r"
      by simp
    have step: "editorRowCxToRx_loop r cx0 (j + 1) (rx_step rx0 (chars r ! nat j)) = Ok x"
      using "1.prems"(4) by (simp add: loop_unfold [OF "1.prems"(1) True in_row])
    have "editorRowCxToRx_loop r (cx0 + 1) (j + 1) (rx_step rx0 (chars r ! nat j))
            = Ok (rx_step x (chars r ! nat cx0))"
      using "1.IH" [OF True chars_at_in [OF "1.prems"(1) in_row]] "1.prems" True step
      by (simp add: rx_step_def)
    then show ?thesis
      using True in_row "1.prems"(1) by (simp add: loop_unfold)
  next
    case False
    with "1.prems" have eq: "j = cx0" by simp
    from "1.prems"(4) have "x = rx0" by (simp add: eq loop_done)
    then show ?thesis
      using "1.prems" by (simp add: eq loop_unfold loop_done)
  qed
qed

lemma editorRowCxToRx_returns:
  "cx0 \<le> erow_size r \<Longrightarrow> \<exists>x. editorRowCxToRx r cx0 = Ok x \<and> 0 \<le> x"
  using loop_returns [of 0 cx0 r 0] by (simp add: editorRowCxToRx_def)

lemma editorRowCxToRx_Suc:
  "0 \<le> k \<Longrightarrow> k < erow_size r \<Longrightarrow> editorRowCxToRx r k = Ok x \<Longrightarrow>
   editorRowCxToRx r (k + 1) = Ok (rx_step x (chars r ! nat k))"
  using loop_extend [of 0 k r 0 x] by (simp add: editorRowCxToRx_def)

lemma editorRowCxToRx_ahead:
  "0 \<le> a \<Longrightarrow> a + int n \<le> erow_size r \<Longrightarrow> editorRowCxToRx r a = Ok x \<Longrightarrow>
   \<exists>y. editorRowCxToRx r (a + int n) = Ok y \<and> x \<le> y"
proof (induction n)
  case 0
  then show ?case by simp
next
  case (Suc n)
  then obtain y where y: "editorRowCxToRx r (a + int n) = Ok y" "x \<le> y"
    by auto
  have "editorRowCxToRx r (a + int n + 1) = Ok (rx_step y (chars r ! nat (a + int n)))"
    using Suc.prems y(1) by (intro editorRowCxToRx_Suc) simp_all
  moreover have "y < rx_step y (chars r ! nat (a + int n))"
    by (rule rx_step_gt)
  moreover have "a + int (Suc n) = a + int n + 1"
    by simp
  ultimately show ?case
    using y(2) by (metis less_imp_le order_trans)
qed

text \<open>
  Claim C8. For a column \<open>cx\<close> in \<open>[0, size]\<close> the projection \<open>editorRowCxToRx\<close>
  returns, is 0 at column 0, and never decreases as \<open>cx\<close> grows; one more byte adds 1 to
  the running column, except a tab, which moves it to the next multiple of the tab stop.
\<close>

theorem editorRowCxToRx_monotone:
  "editorRowCxToRx r 0 = Ok 0 \<and>
   (\<forall>a b. 0 \<le> a \<and> a \<le> b \<and> b \<le> erow_size r \<longrightarrow>
      (\<exists>x y. editorRowCxToRx r a = Ok x \<and> editorRowCxToRx r b = Ok y \<and> x \<le> y)) \<and>
   (\<forall>k x. 0 \<le> k \<and> k < erow_size r \<and> editorRowCxToRx r k = Ok x \<longrightarrow>
      editorRowCxToRx r (k + 1) =
        Ok (if chars r ! nat k = CHR 0x09
            then x + (KILO_TAB_STOP - x mod KILO_TAB_STOP) else x + 1))"
proof (intro conjI allI impI)
  show "editorRowCxToRx r 0 = Ok 0"
    by (simp add: editorRowCxToRx_def loop_done)
next
  fix a b :: int
  assume ab: "0 \<le> a \<and> a \<le> b \<and> b \<le> erow_size r"
  then obtain x where x: "editorRowCxToRx r a = Ok x"
    using editorRowCxToRx_returns [of a r] by auto
  have "\<exists>y. editorRowCxToRx r (a + int (nat (b - a))) = Ok y \<and> x \<le> y"
    using ab x by (intro editorRowCxToRx_ahead) simp_all
  with ab x show "\<exists>x y. editorRowCxToRx r a = Ok x \<and> editorRowCxToRx r b = Ok y \<and> x \<le> y"
    by simp
next
  fix k x :: int
  assume k: "0 \<le> k \<and> k < erow_size r \<and> editorRowCxToRx r k = Ok x"
  then have "0 \<le> x"
    using editorRowCxToRx_returns [of k r] by auto
  then have "rx_step x (chars r ! nat k) =
      (if chars r ! nat k = CHR 0x09 then x + (KILO_TAB_STOP - x mod KILO_TAB_STOP) else x + 1)"
    by (simp add: rx_step_def c_rem_nonneg KILO_TAB_STOP_def)
  with k show "editorRowCxToRx r (k + 1) =
      Ok (if chars r ! nat k = CHR 0x09
          then x + (KILO_TAB_STOP - x mod KILO_TAB_STOP) else x + 1)"
    using editorRowCxToRx_Suc [of k r x] by simp
qed

theorem editorRowCxToRx_monotone_witness:
  "(0::int) \<le> 1 \<and> (1::int) \<le> 3
   \<and> 3 \<le> erow_size \<lparr>chars = [CHR ''a'', CHR 0x09, CHR ''b''], render = []\<rparr>
   \<and> (\<exists>x y. editorRowCxToRx \<lparr>chars = [CHR ''a'', CHR 0x09, CHR ''b''], render = []\<rparr> 1 = Ok x
          \<and> editorRowCxToRx \<lparr>chars = [CHR ''a'', CHR 0x09, CHR ''b''], render = []\<rparr> 3 = Ok y
          \<and> x \<le> y)
   \<and> editorRowCxToRx \<lparr>chars = [CHR ''a'', CHR 0x09, CHR ''b''], render = []\<rparr> 1 = Ok 1
   \<and> editorRowCxToRx \<lparr>chars = [CHR ''a'', CHR 0x09, CHR ''b''], render = []\<rparr> 2 = Ok 4"
proof -
  let ?r = "\<lparr>chars = [CHR ''a'', CHR 0x09, CHR ''b''], render = []\<rparr>"
  have size: "erow_size ?r = 3"
    by (simp add: erow_size_def)
  have one: "editorRowCxToRx ?r 1 = Ok 1"
    by code_simp
  have range: "(0::int) \<le> 1 \<and> (1::int) \<le> 3 \<and> 3 \<le> erow_size ?r"
    by (simp add: size)
  have mono: "\<exists>x y. editorRowCxToRx ?r 1 = Ok x \<and> editorRowCxToRx ?r 3 = Ok y \<and> x \<le> y"
    using editorRowCxToRx_monotone [of ?r, THEN conjunct2, THEN conjunct1, rule_format, of 1 3]
      range by simp
  have "editorRowCxToRx ?r (1 + 1) =
        Ok (if chars ?r ! nat 1 = CHR 0x09
            then 1 + (KILO_TAB_STOP - 1 mod KILO_TAB_STOP) else 1 + 1)"
    using editorRowCxToRx_monotone [of ?r, THEN conjunct2, THEN conjunct2, rule_format, of 1 1]
      one size by simp
  then have two: "editorRowCxToRx ?r 2 = Ok 4"
    by (simp add: KILO_TAB_STOP_def)
  show ?thesis
    using range mono one two by simp
qed

section \<open>Scrolling keeps the cursor in the window\<close>

lemma row_at_in: "0 \<le> i \<Longrightarrow> i < numrows E \<Longrightarrow> row_at E i = Some (row E ! nat i)"
  by (simp add: row_at_def)

lemma editorScroll_returns:
  assumes "cursor_inv E"
  shows "\<exists>E'. editorScroll E = Ok E'"
proof (cases "cy E < numrows E")
  case True
  with assms have "0 \<le> cy E" "cx E \<le> erow_size (row E ! nat (cy E))"
    by (simp_all add: cursor_inv_def)
  then obtain x where "editorRowCxToRx (row E ! nat (cy E)) (cx E) = Ok x"
    using editorRowCxToRx_returns by blast
  with True \<open>0 \<le> cy E\<close> show ?thesis
    by (simp add: editorScroll_def row_at_in Let_def)
next
  case False
  then show ?thesis
    by (simp add: editorScroll_def Let_def)
qed

lemma editorScroll_Ok:
  assumes "editorScroll E = Ok E'"
  obtains x where
    "E' = E\<lparr>rx := x,
            rowoff := (let ro = (if cy E < rowoff E then cy E else rowoff E)
                       in if cy E \<ge> ro + screenrows E then cy E - screenrows E + 1 else ro),
            coloff := (let co = (if x < coloff E then x else coloff E)
                       in if x \<ge> co + screencols E then x - screencols E + 1 else co)\<rparr>"
    and "if cy E < numrows E
         then 0 \<le> cy E \<and> editorRowCxToRx (row E ! nat (cy E)) (cx E) = Ok x
         else x = 0"
proof -
  obtain x where x: "(if cy E < numrows E
            then (case row_at E (cy E) of
                    None \<Rightarrow> Undefined
                  | Some r \<Rightarrow> editorRowCxToRx r (cx E))
            else Ok 0) = Ok x"
    using assms unfolding editorScroll_def by (simp split: result.splits)
  have "editorScroll E = Ok (E\<lparr>rx := x,
            rowoff := (let ro = (if cy E < rowoff E then cy E else rowoff E)
                       in if cy E \<ge> ro + screenrows E then cy E - screenrows E + 1 else ro),
            coloff := (let co = (if x < coloff E then x else coloff E)
                       in if x \<ge> co + screencols E then x - screencols E + 1 else co)\<rparr>)"
    unfolding editorScroll_def x by (simp add: Let_def)
  with assms have "E' = E\<lparr>rx := x,
            rowoff := (let ro = (if cy E < rowoff E then cy E else rowoff E)
                       in if cy E \<ge> ro + screenrows E then cy E - screenrows E + 1 else ro),
            coloff := (let co = (if x < coloff E then x else coloff E)
                       in if x \<ge> co + screencols E then x - screencols E + 1 else co)\<rparr>"
    by simp
  moreover have "if cy E < numrows E
      then 0 \<le> cy E \<and> editorRowCxToRx (row E ! nat (cy E)) (cx E) = Ok x
      else x = 0"
    using x by (auto simp: row_at_def split: if_splits)
  ultimately show thesis
    by (rule that)
qed

text \<open>
  Claim C1. With at least one screen row and one screen column, every state that
  \<open>editorScroll\<close> returns has the cursor inside the window:
  \<open>rowoff \<le> cy < rowoff + screenrows\<close> and \<open>coloff \<le> rx < coloff + screencols\<close>
  (for an empty document as well), where \<open>rx\<close> is the rendered column of the cursor,
  \<open>editorRowCxToRx\<close> of the row under the cursor at \<open>cx\<close>, and 0 when the cursor is
  past the last row; the cursor, the rows and the screen size are untouched; and
  \<open>editorScroll\<close> does return when the cursor invariant holds.
\<close>

theorem editorScroll_window:
  assumes "1 \<le> screenrows E" and "1 \<le> screencols E"
  shows "(cursor_inv E \<longrightarrow> (\<exists>E'. editorScroll E = Ok E')) \<and>
         (\<forall>E'. editorScroll E = Ok E' \<longrightarrow>
            rowoff E' \<le> cy E' \<and> cy E' < rowoff E' + screenrows E' \<and>
            coloff E' \<le> rx E' \<and> rx E' < coloff E' + screencols E' \<and>
            (if cy E < numrows E
             then 0 \<le> cy E \<and> editorRowCxToRx (row E ! nat (cy E)) (cx E) = Ok (rx E')
             else rx E' = 0) \<and>
            cx E' = cx E \<and> cy E' = cy E \<and> row E' = row E \<and>
            screenrows E' = screenrows E \<and> screencols E' = screencols E)"
proof (intro conjI allI impI)
  assume "cursor_inv E"
  then show "\<exists>E'. editorScroll E = Ok E'"
    by (rule editorScroll_returns)
next
  fix E'
  assume "editorScroll E = Ok E'"
  then obtain x where E': 
    "E' = E\<lparr>rx := x,
            rowoff := (let ro = (if cy E < rowoff E then cy E else rowoff E)
                       in if cy E \<ge> ro + screenrows E then cy E - screenrows E + 1 else ro),
            coloff := (let co = (if x < coloff E then x else coloff E)
                       in if x \<ge> co + screencols E then x - screencols E + 1 else co)\<rparr>"
    and x: "if cy E < numrows E
         then 0 \<le> cy E \<and> editorRowCxToRx (row E ! nat (cy E)) (cx E) = Ok x
         else x = 0"
    by (rule editorScroll_Ok)
  show "rowoff E' \<le> cy E'" using assms by (simp add: E' Let_def)
  show "cy E' < rowoff E' + screenrows E'" using assms by (simp add: E' Let_def)
  show "coloff E' \<le> rx E'" using assms by (simp add: E' Let_def)
  show "rx E' < coloff E' + screencols E'" using assms by (simp add: E' Let_def)
  have "rx E' = x"
    by (simp add: E')
  with x show "if cy E < numrows E
      then 0 \<le> cy E \<and> editorRowCxToRx (row E ! nat (cy E)) (cx E) = Ok (rx E')
      else rx E' = 0"
    by simp
  show "cx E' = cx E" "cy E' = cy E" "row E' = row E"
    "screenrows E' = screenrows E" "screencols E' = screencols E"
    by (simp_all add: E')
qed

theorem editorScroll_window_witness:
  "1 \<le> screenrows scroll_example \<and> 1 \<le> screencols scroll_example \<and>
   cursor_inv scroll_example \<and>
   editorRowCxToRx (row scroll_example ! nat (cy scroll_example)) (cx scroll_example) = Ok 5 \<and>
   (\<exists>E'. editorScroll scroll_example = Ok E' \<and>
      rowoff E' \<le> cy E' \<and> cy E' < rowoff E' + screenrows E' \<and>
      coloff E' \<le> rx E' \<and> rx E' < coloff E' + screencols E' \<and> rx E' = 5)"
proof -
  have dims: "1 \<le> screenrows scroll_example" "1 \<le> screencols scroll_example"
    by (simp_all add: scroll_example_def)
  have inv: "cursor_inv scroll_example"
    by (simp add: scroll_example_def cursor_inv_def numrows_def erow_size_def)
  have in_doc: "cy scroll_example < numrows scroll_example"
    by (simp add: scroll_example_def numrows_def)
  have "editorRowCxToRx \<lparr>chars = [CHR ''a'', CHR 0x09, CHR ''b''], render = ''a   b''\<rparr> 3 = Ok 5"
    by code_simp
  then have col: "editorRowCxToRx (row scroll_example ! nat (cy scroll_example))
      (cx scroll_example) = Ok 5"
    by (simp add: scroll_example_def)
  note win = editorScroll_window [OF dims]
  from win [THEN conjunct1, rule_format, OF inv]
  obtain E' where E': "editorScroll scroll_example = Ok E'" ..
  note after = win [THEN conjunct2, rule_format, OF E']
  have window: "rowoff E' \<le> cy E' \<and> cy E' < rowoff E' + screenrows E' \<and>
      coloff E' \<le> rx E' \<and> rx E' < coloff E' + screencols E'"
    using after by simp
  have "editorRowCxToRx (row scroll_example ! nat (cy scroll_example))
      (cx scroll_example) = Ok (rx E')"
    using after in_doc by simp
  with col have "rx E' = 5"
    by simp
  with dims inv col E' window show ?thesis
    by simp
qed

section \<open>Decoding keys\<close>

lemma char_to_int_inverse: "char_of (char_to_int c) = c"
proof -
  have "char_of (of_char c - (256::int)) = char_of (of_char c :: int)"
    by (simp add: char_of_eq_iff take_bit_eq_mod)
  then show ?thesis
    by (simp add: char_to_int_def)
qed

text \<open>
  Claim C3. Each escape form of the table is decoded to its key and uses up exactly
  its own bytes, whatever follows: \<open>ESC [ 3 ~\<close> is one \<open>DEL_KEY\<close> and four bytes. An
  escape byte followed by a read that times out (or by silence) is one escape key.
\<close>

theorem editorReadKey_escape_forms:
  "editorReadKey (esc_seq ''[3~'' rest) = Ok (DEL_KEY, rest) \<and>
   editorReadKey (esc_seq ''[1~'' rest) = Ok (HOME_KEY, rest) \<and>
   editorReadKey (esc_seq ''[7~'' rest) = Ok (HOME_KEY, rest) \<and>
   editorReadKey (esc_seq ''[4~'' rest) = Ok (END_KEY, rest) \<and>
   editorReadKey (esc_seq ''[8~'' rest) = Ok (END_KEY, rest) \<and>
   editorReadKey (esc_seq ''[5~'' rest) = Ok (PAGE_UP, rest) \<and>
   editorReadKey (esc_seq ''[6~'' rest) = Ok (PAGE_DOWN, rest) \<and>
   editorReadKey (esc_seq ''[A'' rest) = Ok (ARROW_UP, rest) \<and>
   editorReadKey (esc_seq ''[B'' rest) = Ok (ARROW_DOWN, rest) \<and>
   editorReadKey (esc_seq ''[C'' rest) = Ok (ARROW_RIGHT, rest) \<and>
   editorReadKey (esc_seq ''[D'' rest) = Ok (ARROW_LEFT, rest) \<and>
   editorReadKey (esc_seq ''[H'' rest) = Ok (HOME_KEY, rest) \<and>
   editorReadKey (esc_seq ''[F'' rest) = Ok (END_KEY, rest) \<and>
   editorReadKey (esc_seq ''OH'' rest) = Ok (HOME_KEY, rest) \<and>
   editorReadKey (esc_seq ''OF'' rest) = Ok (END_KEY, rest) \<and>
   editorReadKey (Byte (CHR 0x1B) # Timeout # rest) = Ok (0x1b, rest) \<and>
   editorReadKey [Byte (CHR 0x1B)] = Ok (0x1b, [])"
  by (simp add: editorReadKey_def esc_seq_def char_to_int_def)

lemma spec_recognized_Nil: "\<not> spec_recognized []"
  by (simp add: spec_recognized_def spec_escape_table_def)

lemma spec_recognized_single: "\<not> spec_recognized [x]"
  by (simp add: spec_recognized_def spec_escape_table_def)





lemma editorReadKey_skips_timeouts:
  "set pre \<subseteq> {Timeout, Eagain} \<Longrightarrow> editorReadKey (pre @ inp) = editorReadKey inp"
proof (induction pre)
  case Nil
  then show ?case by simp
next
  case (Cons x pre)
  then have "editorReadKey_wait (x # pre @ inp) = editorReadKey_wait (pre @ inp)"
    by auto
  with Cons show ?case
    by (simp add: editorReadKey_def)
qed

lemma editorReadKey_plain:
  "c \<noteq> CHR 0x1B \<Longrightarrow> editorReadKey (Byte c # rest) = Ok (char_to_int c, rest)"
  by (simp add: editorReadKey_def)



section \<open>Rendering a row\<close>

lemma tab_fill_replicate:
  "tab_fill buf = buf @ replicate ((4 - length buf mod 4) mod 4) (CHR '' '')"
proof (induction buf rule: tab_fill.induct)
  case (1 buf)
  show ?case
  proof (cases "length buf mod 4 = 0")
    case True
    then have "c_rem (int (length buf)) KILO_TAB_STOP = 0"
      by (simp add: c_rem_nonneg KILO_TAB_STOP_def; presburger)
    with True show ?thesis
      by (subst tab_fill.simps) simp
  next
    case False
    then have rem: "c_rem (int (length buf)) KILO_TAB_STOP \<noteq> 0"
      by (simp add: c_rem_nonneg KILO_TAB_STOP_def; presburger)
    have "length buf mod 4 < 4"
      by simp
    with False have "(4 - length buf mod 4) mod 4 = Suc ((4 - Suc (length buf) mod 4) mod 4)"
      by (simp add: mod_Suc; arith)
    then have "replicate ((4 - length buf mod 4) mod 4) (CHR '' '')
        = CHR '' '' # replicate ((4 - Suc (length buf) mod 4) mod 4) (CHR '' '')"
      by simp
    with "1.IH" [OF rem] rem show ?thesis
      by (subst tab_fill.simps) simp
  qed
qed

lemma length_tab_fill_space:
  "int (length (tab_fill (buf @ [CHR '' '']))) =
     int (length buf) + 1 + (KILO_TAB_STOP - 1 - int (length buf) mod KILO_TAB_STOP)"
proof -
  have "length buf mod 4 < 4"
    by simp
  then have "(4 - Suc (length buf) mod 4) mod 4 = 3 - length buf mod 4"
    by (simp add: mod_Suc; arith)
  moreover have "int (3 - length buf mod 4) = 3 - int (length buf) mod 4"
    using \<open>length buf mod 4 < 4\<close> by (simp add: of_nat_diff zmod_int)
  ultimately show ?thesis
    by (simp add: tab_fill_replicate KILO_TAB_STOP_def)
qed

lemma length_editorUpdateRow_loop:
  "int (length (editorUpdateRow_loop cs buf)) =
     int (length buf) + int (length cs) +
     (\<Sum>j<length cs.
        if cs ! j = CHR 0x09
        then KILO_TAB_STOP - 1 - int (length (editorUpdateRow_loop (take j cs) buf)) mod KILO_TAB_STOP
        else 0)"
proof (induction cs arbitrary: buf)
  case Nil
  then show ?case by simp
next
  case (Cons c cs)
  show ?case
  proof (cases "c = CHR 0x09")
    case True
    then show ?thesis
      by (simp add: Cons.IH sum.lessThan_Suc_shift length_tab_fill_space del: sum.lessThan_Suc cong: if_cong)
  next
    case False
    then show ?thesis
      by (simp add: Cons.IH sum.lessThan_Suc_shift del: sum.lessThan_Suc cong: if_cong)
  qed
qed

text \<open>
  Claim C7. The rendered form is computed from the raw bytes alone: its length is the
  raw length plus, for every tab byte, \<open>KILO_TAB_STOP - 1 - (col mod KILO_TAB_STOP)\<close>
  with \<open>col\<close> the render column at which that tab begins; what \<open>render\<close> held before
  does not matter, the raw bytes are left as they are, and deriving it a second time
  changes nothing.
\<close>

theorem editorUpdateRow_render:
  "erow_rsize (editorUpdateRow r) =
     erow_size r +
     (\<Sum>j<length (chars r).
        if chars r ! j = CHR 0x09
        then KILO_TAB_STOP - 1 - render_col r j mod KILO_TAB_STOP else 0) \<and>
   editorUpdateRow (r\<lparr>render := old\<rparr>) = editorUpdateRow r \<and>
   chars (editorUpdateRow r) = chars r \<and>
   editorUpdateRow (editorUpdateRow r) = editorUpdateRow r"
  using length_editorUpdateRow_loop [of "chars r" "[]"]
  by (simp add: editorUpdateRow_def erow_rsize_def erow_size_def render_col_def cong: if_cong)

text \<open>
  The rendering and the projection agree: the column \<open>editorRowCxToRx\<close> computes for
  \<open>cx\<close> is where byte \<open>cx\<close> begins in \<open>render\<close>.
\<close>

lemma editorUpdateRow_loop_append:
  "editorUpdateRow_loop (xs @ ys) buf = editorUpdateRow_loop ys (editorUpdateRow_loop xs buf)"
  by (induction xs arbitrary: buf) simp_all

lemma render_col_Suc:
  assumes "j < length (chars r)"
  shows "render_col r (Suc j) = rx_step (render_col r j) (chars r ! j)"
proof -
  let ?buf = "editorUpdateRow_loop (take j (chars r)) []"
  have "take (Suc j) (chars r) = take j (chars r) @ [chars r ! j]"
    using assms by (rule take_Suc_conv_app_nth)
  then have "render_col r (Suc j) = int (length (editorUpdateRow_loop [chars r ! j] ?buf))"
    by (simp add: render_col_def editorUpdateRow_def erow_rsize_def editorUpdateRow_loop_append)
  moreover have "render_col r j = int (length ?buf)"
    by (simp add: render_col_def editorUpdateRow_def erow_rsize_def)
  moreover have "c_rem (int (length ?buf)) KILO_TAB_STOP = int (length ?buf) mod KILO_TAB_STOP"
    by (simp add: c_rem_nonneg KILO_TAB_STOP_def)
  ultimately show ?thesis
    by (simp add: rx_step_def length_tab_fill_space)
qed

lemma editorRowCxToRx_render_col:
  "j \<le> length (chars r) \<Longrightarrow> editorRowCxToRx r (int j) = Ok (render_col r j)"
proof (induction j)
  case 0
  then show ?case
    by (simp add: editorRowCxToRx_def loop_done render_col_def editorUpdateRow_def erow_rsize_def)
next
  case (Suc j)
  then have "editorRowCxToRx r (int j + 1) = Ok (rx_step (render_col r j) (chars r ! nat (int j)))"
    by (intro editorRowCxToRx_Suc) (simp_all add: erow_size_def)
  with Suc.prems show ?case
    by (simp add: render_col_Suc add.commute)
qed

section \<open>Inserting a byte into a row\<close>

text \<open>
  Claim C5. Inserting at a column \<open>at\<close> with \<open>0 \<le> at \<le> size\<close> makes the row one byte
  longer, leaves the bytes before \<open>at\<close> in place, stores the byte at \<open>at\<close>, and moves
  every byte from \<open>at\<close> on one place to the right. A column outside \<open>[0, size]\<close>
  (such as \<open>size + 5\<close>) inserts exactly as column \<open>size\<close> does. In every case \<open>render\<close>
  is the rendering of the new bytes.
\<close>

theorem editorRowInsertChar_shift:
  "(0 \<le> at0 \<and> at0 \<le> erow_size r \<longrightarrow>
      erow_size (editorRowInsertChar r at0 c) = erow_size r + 1 \<and>
      (\<forall>i. i < nat at0 \<longrightarrow> chars (editorRowInsertChar r at0 c) ! i = chars r ! i) \<and>
      chars (editorRowInsertChar r at0 c) ! nat at0 = char_of c \<and>
      (\<forall>i. nat at0 \<le> i \<and> i < length (chars r) \<longrightarrow>
         chars (editorRowInsertChar r at0 c) ! Suc i = chars r ! i)) \<and>
   (at0 < 0 \<or> erow_size r < at0 \<longrightarrow>
      editorRowInsertChar r at0 c = editorRowInsertChar r (erow_size r) c) \<and>
   editorRowInsertChar r (erow_size r + 5) c = editorRowInsertChar r (erow_size r) c \<and>
   render (editorRowInsertChar r at0 c) =
     editorUpdateRow_loop (chars (editorRowInsertChar r at0 c)) []"
proof (intro conjI impI allI)
  assume range: "0 \<le> at0 \<and> at0 \<le> erow_size r"
  then have at: "nat at0 \<le> length (chars r)"
    by (simp add: erow_size_def nat_le_iff)
  have cs: "chars (editorRowInsertChar r at0 c) =
      take (nat at0) (chars r) @ char_of c # drop (nat at0) (chars r)"
    using range by (simp add: editorRowInsertChar_def editorUpdateRow_def Let_def)
  show "erow_size (editorRowInsertChar r at0 c) = erow_size r + 1"
    using at by (simp add: cs erow_size_def)
  show "chars (editorRowInsertChar r at0 c) ! nat at0 = char_of c"
    using at by (simp add: cs nth_append)
  show "chars (editorRowInsertChar r at0 c) ! i = chars r ! i" if "i < nat at0" for i
    using that at by (simp add: cs nth_append)
  show "chars (editorRowInsertChar r at0 c) ! Suc i = chars r ! i"
    if "nat at0 \<le> i \<and> i < length (chars r)" for i
  proof -
    have "Suc i - nat at0 = Suc (i - nat at0)"
      using that by arith
    with that at show ?thesis
      by (simp add: cs nth_append)
  qed
next
  assume "at0 < 0 \<or> erow_size r < at0"
  then show "editorRowInsertChar r at0 c = editorRowInsertChar r (erow_size r) c"
    by (auto simp: editorRowInsertChar_def Let_def)
next
  show "editorRowInsertChar r (erow_size r + 5) c = editorRowInsertChar r (erow_size r) c"
    by (simp add: editorRowInsertChar_def Let_def)
next
  show "render (editorRowInsertChar r at0 c) =
      editorUpdateRow_loop (chars (editorRowInsertChar r at0 c)) []"
    by (simp add: editorRowInsertChar_def editorUpdateRow_def Let_def)
qed

theorem editorRowInsertChar_shift_witness:
  "(0::int) \<le> 1 \<and> 1 \<le> erow_size \<lparr>chars = ''abc'', render = ''abc''\<rparr> \<and>
   erow_size (editorRowInsertChar \<lparr>chars = ''abc'', render = ''abc''\<rparr> 1 120) = 4 \<and>
   chars (editorRowInsertChar \<lparr>chars = ''abc'', render = ''abc''\<rparr> 1 120) ! 0 = CHR ''a'' \<and>
   chars (editorRowInsertChar \<lparr>chars = ''abc'', render = ''abc''\<rparr> 1 120) ! 1 = CHR ''x'' \<and>
   chars (editorRowInsertChar \<lparr>chars = ''abc'', render = ''abc''\<rparr> 1 120) ! 2 = CHR ''b'' \<and>
   chars (editorRowInsertChar \<lparr>chars = ''abc'', render = ''abc''\<rparr> 1 120) ! 3 = CHR ''c'' \<and>
   erow_size \<lparr>chars = ''abc'', render = ''abc''\<rparr> < 8 \<and>
   editorRowInsertChar \<lparr>chars = ''abc'', render = ''abc''\<rparr> 8 120
     = editorRowInsertChar \<lparr>chars = ''abc'', render = ''abc''\<rparr> 3 120"
proof -
  let ?r = "\<lparr>chars = ''abc'', render = ''abc''\<rparr>"
  have size: "erow_size ?r = 3"
    by (simp add: erow_size_def)
  have range: "(0::int) \<le> 1 \<and> 1 \<le> erow_size ?r"
    by (simp add: size)
  have outside: "(8::int) < 0 \<or> erow_size ?r < 8"
    by (simp add: size)
  have len: "erow_size (editorRowInsertChar ?r 1 120) = erow_size ?r + 1"
    using editorRowInsertChar_shift [of 1 ?r 120, THEN conjunct1, rule_format, OF range]
    by simp
  have clamp: "editorRowInsertChar ?r 8 120 = editorRowInsertChar ?r (erow_size ?r) 120"
    using editorRowInsertChar_shift [of 8 ?r 120, THEN conjunct2, THEN conjunct1,
      rule_format, OF outside] .
  have "chars (editorRowInsertChar ?r 1 120) = ''axbc''"
    by (simp add: editorRowInsertChar_def editorUpdateRow_def Let_def size char_of_def)
  then show ?thesis
    using len clamp size by simp
qed

section \<open>Moving the cursor\<close>

lemma editorMoveCursor_left_wrap:
  assumes "0 < cy E" "cy E \<le> numrows E" "cx E = 0"
  shows "editorMoveCursor ARROW_LEFT E =
           Ok (E\<lparr>cy := cy E - 1, cx := erow_size (row E ! nat (cy E - 1))\<rparr>)"
  using assms by (simp add: editorMoveCursor_def editorMoveCursor_switch_def editorMoveCursor_snap_def row_at_def Let_def numrows_def)

lemma editorMoveCursor_right_wrap:
  assumes "0 \<le> cy E" "cy E < numrows E" "cx E = erow_size (row E ! nat (cy E))"
  shows "editorMoveCursor ARROW_RIGHT E = Ok (E\<lparr>cy := cy E + 1, cx := 0\<rparr>)"
proof -
  have "0 \<le> erow_size (row E ! nat (cy E + 1))"
    by (simp add: erow_size_def)
  with assms show ?thesis
    by (simp add: editorMoveCursor_def editorMoveCursor_switch_def editorMoveCursor_snap_def row_at_def Let_def key_defs numrows_def)
qed

lemma editorMoveCursor_up:
  assumes "0 \<le> cy E" "cy E \<le> numrows E"
  shows "editorMoveCursor ARROW_UP E =
           Ok (E\<lparr>cy := (if cy E = 0 then 0 else cy E - 1),
                  cx := min (cx E) (cursor_rowlen (E\<lparr>cy := (if cy E = 0 then 0 else cy E - 1)\<rparr>))\<rparr>)"
  using assms
  by (auto simp: editorMoveCursor_def editorMoveCursor_switch_def editorMoveCursor_snap_def row_at_def Let_def key_defs cursor_rowlen_def min_def numrows_def)

lemma editorMoveCursor_down:
  assumes "0 \<le> cy E" "cy E \<le> numrows E"
  shows "editorMoveCursor ARROW_DOWN E =
           Ok (E\<lparr>cy := (if cy E < numrows E then cy E + 1 else cy E),
                  cx := min (cx E)
                    (cursor_rowlen (E\<lparr>cy := (if cy E < numrows E then cy E + 1 else cy E)\<rparr>))\<rparr>)"
  using assms
  by (auto simp: editorMoveCursor_def editorMoveCursor_switch_def editorMoveCursor_snap_def row_at_def Let_def key_defs cursor_rowlen_def min_def numrows_def)

lemma editorMoveCursor_switch_returns:
  assumes "0 \<le> cy E" "cy E \<le> numrows E"
  shows "\<exists>E1. editorMoveCursor_switch key E = Ok E1 \<and>
           0 \<le> cy E1 \<and> cy E1 \<le> numrows E1 \<and> (0 \<le> cx E \<longrightarrow> 0 \<le> cx E1) \<and>
           E1 = E\<lparr>cy := cy E1, cx := cx E1\<rparr>"
proof -
  consider "key = ARROW_LEFT" | "key = ARROW_RIGHT" | "key = ARROW_UP" | "key = ARROW_DOWN"
    | "key \<noteq> ARROW_LEFT" "key \<noteq> ARROW_RIGHT" "key \<noteq> ARROW_UP" "key \<noteq> ARROW_DOWN"
    by blast
  then show ?thesis
  proof cases
    case 1
    with assms show ?thesis
      by (simp add: editorMoveCursor_switch_def row_at_def numrows_def erow_size_def)
  next
    case 2
    with assms show ?thesis
      by (simp add: editorMoveCursor_switch_def row_at_def numrows_def erow_size_def key_defs)
  next
    case 3
    with assms show ?thesis
      by (simp add: editorMoveCursor_switch_def numrows_def key_defs)
  next
    case 4
    with assms show ?thesis
      by (simp add: editorMoveCursor_switch_def numrows_def key_defs)
  next
    case 5
    with assms show ?thesis
      by (simp add: editorMoveCursor_switch_def)
  qed
qed

lemma editorMoveCursor_snap_returns:
  assumes "0 \<le> cy E" "cy E \<le> numrows E"
  shows "editorMoveCursor_snap E = Ok (E\<lparr>cx := min (cx E) (cursor_rowlen E)\<rparr>)"
  using assms
  by (simp add: editorMoveCursor_snap_def row_at_def cursor_rowlen_def min_def)

lemma editorMoveCursor_returns:
  assumes "0 \<le> cy E" "cy E \<le> numrows E"
  shows "\<exists>E'. editorMoveCursor key E = Ok E' \<and>
           0 \<le> cy E' \<and> cy E' \<le> numrows E' \<and> cx E' \<le> cursor_rowlen E' \<and>
           (0 \<le> cx E \<longrightarrow> 0 \<le> cx E') \<and>
           E' = E\<lparr>cy := cy E', cx := cx E'\<rparr>"
proof -
  obtain E1 where E1: "editorMoveCursor_switch key E = Ok E1"
      "0 \<le> cy E1" "cy E1 \<le> numrows E1" "0 \<le> cx E \<longrightarrow> 0 \<le> cx E1"
      "E1 = E\<lparr>cy := cy E1, cx := cx E1\<rparr>"
    using editorMoveCursor_switch_returns [OF assms] by blast
  let ?E' = "E1\<lparr>cx := min (cx E1) (cursor_rowlen E1)\<rparr>"
  have "editorMoveCursor key E = Ok ?E'"
    using E1 by (simp add: editorMoveCursor_def editorMoveCursor_snap_returns)
  moreover have "0 \<le> cursor_rowlen E1"
    by (simp add: cursor_rowlen_def erow_size_def)
  moreover have "cursor_rowlen ?E' = cursor_rowlen E1" "numrows ?E' = numrows E1"
    by (simp_all add: cursor_rowlen_def numrows_def)
  moreover have "?E' = E\<lparr>cy := cy ?E', cx := cx ?E'\<rparr>"
    by (subst (1) E1(5)) simp
  ultimately show ?thesis
    using E1(2-4) by (intro exI [of _ ?E']) (simp add: min_def)
qed

lemma cursor_inv_iff:
  "cursor_inv E \<longleftrightarrow> 0 \<le> cy E \<and> cy E \<le> numrows E \<and> 0 \<le> cx E \<and> cx E \<le> cursor_rowlen E"
  by (auto simp: cursor_inv_def cursor_rowlen_def)

text \<open>
  Claim C6. In a state with \<open>0 \<le> cy \<le> numrows\<close>: \<open>ARROW_LEFT\<close> at column 0 of row
  \<open>k > 0\<close> goes to the end of row \<open>k - 1\<close>; \<open>ARROW_RIGHT\<close> at the end of a row \<open>k\<close>
  goes to column 0 of row \<open>k + 1\<close>; \<open>ARROW_UP\<close> and \<open>ARROW_DOWN\<close> change the row index
  by one and stay put at row 0 and at row \<open>numrows\<close>, with no wrap-around; and after
  any key the column is the smaller of the column the motion gave and the length of
  the row now under the cursor (0 past the last row), nothing but \<open>cx\<close> and \<open>cy\<close>
  being changed.
\<close>

theorem editorMoveCursor_motions:
  assumes "0 \<le> cy E" and "cy E \<le> numrows E"
  shows "(cx E = 0 \<and> 0 < cy E \<longrightarrow>
            editorMoveCursor ARROW_LEFT E =
              Ok (E\<lparr>cy := cy E - 1, cx := erow_size (row E ! nat (cy E - 1))\<rparr>)) \<and>
         (cy E < numrows E \<and> cx E = erow_size (row E ! nat (cy E)) \<longrightarrow>
            editorMoveCursor ARROW_RIGHT E = Ok (E\<lparr>cy := cy E + 1, cx := 0\<rparr>)) \<and>
         editorMoveCursor ARROW_UP E =
           Ok (E\<lparr>cy := (if cy E = 0 then 0 else cy E - 1),
                  cx := min (cx E)
                    (cursor_rowlen (E\<lparr>cy := (if cy E = 0 then 0 else cy E - 1)\<rparr>))\<rparr>) \<and>
         editorMoveCursor ARROW_DOWN E =
           Ok (E\<lparr>cy := (if cy E < numrows E then cy E + 1 else cy E),
                  cx := min (cx E)
                    (cursor_rowlen
                      (E\<lparr>cy := (if cy E < numrows E then cy E + 1 else cy E)\<rparr>))\<rparr>) \<and>
         (\<forall>key. \<exists>E1. editorMoveCursor_switch key E = Ok E1 \<and>
            editorMoveCursor key E = Ok (E1\<lparr>cx := min (cx E1) (cursor_rowlen E1)\<rparr>)) \<and>
         (\<forall>key. \<exists>E'. editorMoveCursor key E = Ok E' \<and>
            0 \<le> cy E' \<and> cy E' \<le> numrows E' \<and> cx E' \<le> cursor_rowlen E' \<and>
            E' = E\<lparr>cy := cy E', cx := cx E'\<rparr>)"
proof (intro conjI impI allI)
  assume "cx E = 0 \<and> 0 < cy E"
  with assms show "editorMoveCursor ARROW_LEFT E =
      Ok (E\<lparr>cy := cy E - 1, cx := erow_size (row E ! nat (cy E - 1))\<rparr>)"
    by (intro editorMoveCursor_left_wrap) simp_all
next
  assume "cy E < numrows E \<and> cx E = erow_size (row E ! nat (cy E))"
  with assms show "editorMoveCursor ARROW_RIGHT E = Ok (E\<lparr>cy := cy E + 1, cx := 0\<rparr>)"
    by (intro editorMoveCursor_right_wrap) simp_all
next
  show "editorMoveCursor ARROW_UP E =
      Ok (E\<lparr>cy := (if cy E = 0 then 0 else cy E - 1),
             cx := min (cx E) (cursor_rowlen (E\<lparr>cy := (if cy E = 0 then 0 else cy E - 1)\<rparr>))\<rparr>)"
    using assms by (rule editorMoveCursor_up)
next
  show "editorMoveCursor ARROW_DOWN E =
      Ok (E\<lparr>cy := (if cy E < numrows E then cy E + 1 else cy E),
             cx := min (cx E)
               (cursor_rowlen (E\<lparr>cy := (if cy E < numrows E then cy E + 1 else cy E)\<rparr>))\<rparr>)"
    using assms by (rule editorMoveCursor_down)
next
  fix key
  obtain E1 where E1: "editorMoveCursor_switch key E = Ok E1"
      "0 \<le> cy E1" "cy E1 \<le> numrows E1"
    using editorMoveCursor_switch_returns [OF assms] by blast
  then show "\<exists>E1. editorMoveCursor_switch key E = Ok E1 \<and>
      editorMoveCursor key E = Ok (E1\<lparr>cx := min (cx E1) (cursor_rowlen E1)\<rparr>)"
    by (simp add: editorMoveCursor_def editorMoveCursor_snap_returns)
next
  fix key
  show "\<exists>E'. editorMoveCursor key E = Ok E' \<and>
      0 \<le> cy E' \<and> cy E' \<le> numrows E' \<and> cx E' \<le> cursor_rowlen E' \<and>
      E' = E\<lparr>cy := cy E', cx := cx E'\<rparr>"
    using editorMoveCursor_returns [OF assms, of key] by blast
qed

theorem editorMoveCursor_motions_witness:
  "0 \<le> cy scroll_example \<and> cy scroll_example \<le> numrows scroll_example \<and>
   cy scroll_example < numrows scroll_example \<and>
   cx scroll_example = erow_size (row scroll_example ! nat (cy scroll_example)) \<and>
   editorMoveCursor ARROW_RIGHT scroll_example = Ok (scroll_example\<lparr>cy := 2, cx := 0\<rparr>) \<and>
   cx (scroll_example\<lparr>cx := 0\<rparr>) = 0 \<and> 0 < cy (scroll_example\<lparr>cx := 0\<rparr>) \<and>
   editorMoveCursor ARROW_LEFT (scroll_example\<lparr>cx := 0\<rparr>)
     = Ok (scroll_example\<lparr>cy := 0, cx := 3\<rparr>)"
proof -
  have bounds: "0 \<le> cy scroll_example" "cy scroll_example \<le> numrows scroll_example"
    by (simp_all add: scroll_example_def numrows_def)
  have at_end: "cy scroll_example < numrows scroll_example \<and>
      cx scroll_example = erow_size (row scroll_example ! nat (cy scroll_example))"
    by (simp add: scroll_example_def numrows_def erow_size_def)
  have bounds0: "0 \<le> cy (scroll_example\<lparr>cx := 0\<rparr>)"
      "cy (scroll_example\<lparr>cx := 0\<rparr>) \<le> numrows (scroll_example\<lparr>cx := 0\<rparr>)"
    by (simp_all add: scroll_example_def numrows_def)
  have at_start: "cx (scroll_example\<lparr>cx := 0\<rparr>) = 0 \<and> 0 < cy (scroll_example\<lparr>cx := 0\<rparr>)"
    by (simp add: scroll_example_def)
  have right: "editorMoveCursor ARROW_RIGHT scroll_example
      = Ok (scroll_example\<lparr>cy := cy scroll_example + 1, cx := 0\<rparr>)"
    using editorMoveCursor_motions [OF bounds, THEN conjunct2, THEN conjunct1, rule_format,
      OF at_end] .
  have left: "editorMoveCursor ARROW_LEFT (scroll_example\<lparr>cx := 0\<rparr>)
      = Ok (scroll_example\<lparr>cx := 0, cy := cy (scroll_example\<lparr>cx := 0\<rparr>) - 1,
            cx := erow_size (row (scroll_example\<lparr>cx := 0\<rparr>)
                    ! nat (cy (scroll_example\<lparr>cx := 0\<rparr>) - 1))\<rparr>)"
    using editorMoveCursor_motions [OF bounds0, THEN conjunct1, rule_format, OF at_start] .
  have "cy scroll_example + 1 = 2" "cy (scroll_example\<lparr>cx := 0\<rparr>) - 1 = 0"
    "erow_size (row (scroll_example\<lparr>cx := 0\<rparr>) ! nat (cy (scroll_example\<lparr>cx := 0\<rparr>) - 1)) = 3"
    by (simp_all add: scroll_example_def erow_size_def)
  with right left bounds at_end at_start show ?thesis
    by simp
qed

section \<open>Dispatching keys\<close>

lemma char_to_int_range: "- 128 \<le> char_to_int b \<and> char_to_int b < 128"
proof -
  have "(of_char b :: int) mod 256 = of_char b"
    by (rule of_char_mod_256)
  then have "0 \<le> (of_char b :: int) \<and> (of_char b :: int) < 256"
    by (metis pos_mod_bound pos_mod_sign zero_less_numeral)
  then show ?thesis
    by (simp add: char_to_int_def)
qed

lemma char_to_int_ctrl_q: "char_to_int b = 17 \<Longrightarrow> b = CHR 0x11"
proof -
  assume "char_to_int b = 17"
  then have "char_of (17::int) = b"
    using char_to_int_inverse [of b] by simp
  then show ?thesis
    by (simp add: char_of_def)
qed

lemma CTRL_KEY_q: "CTRL_KEY (of_char CHR ''q'') = 17" "CTRL_KEY 113 = 17"
  by (simp_all add: CTRL_KEY_def)

lemma erow_size_editorRowInsertChar:
  "erow_size (editorRowInsertChar r at0 c) = erow_size r + 1"
  by (simp add: editorRowInsertChar_def editorUpdateRow_def erow_size_def Let_def)

lemma length_chars_editorRowInsertChar:
  "length (chars (editorRowInsertChar r at0 c)) = Suc (length (chars r))"
  using erow_size_editorRowInsertChar [of r at0 c] by (simp add: erow_size_def)

lemma page_loop_once:
  "editorMoveCursor key E = Ok E1 \<Longrightarrow> page_loop (1 + int m) key E = page_loop (int m) key E1"
  by (subst page_loop.simps) simp

lemma page_loop_inv:
  assumes "0 \<le> cy E" "cy E \<le> numrows E" "0 \<le> cx E"
  shows "\<exists>E'. page_loop (1 + int m) key E = Ok E' \<and> cursor_inv E' \<and>
           E' = E\<lparr>cy := cy E', cx := cx E'\<rparr>"
  using assms
proof (induction m arbitrary: E)
  case 0
  obtain E1 where E1: "editorMoveCursor key E = Ok E1" "0 \<le> cy E1" "cy E1 \<le> numrows E1"
      "cx E1 \<le> cursor_rowlen E1" "0 \<le> cx E1" "E1 = E\<lparr>cy := cy E1, cx := cx E1\<rparr>"
    using editorMoveCursor_returns [OF "0.prems"(1,2), of key] "0.prems"(3) by blast
  have "page_loop (1 + int 0) key E = page_loop (int 0) key E1"
    using E1(1) by (rule page_loop_once)
  also have "\<dots> = Ok E1"
    by (subst page_loop.simps) simp
  finally show ?case
    using E1 by (simp add: cursor_inv_iff)
next
  case (Suc m)
  obtain E1 where E1: "editorMoveCursor key E = Ok E1" "0 \<le> cy E1" "cy E1 \<le> numrows E1"
      "cx E1 \<le> cursor_rowlen E1" "0 \<le> cx E1" "E1 = E\<lparr>cy := cy E1, cx := cx E1\<rparr>"
    using editorMoveCursor_returns [OF Suc.prems(1,2), of key] Suc.prems(3) by blast
  obtain E' where E': "page_loop (1 + int m) key E1 = Ok E'" "cursor_inv E'"
      "E' = E1\<lparr>cy := cy E', cx := cx E'\<rparr>"
    using Suc.IH [OF E1(2,3,5)] by blast
  have "page_loop (1 + int (Suc m)) key E = page_loop (int (Suc m)) key E1"
    using E1(1) by (rule page_loop_once)
  also have "int (Suc m) = 1 + int m"
    by simp
  finally have "page_loop (1 + int (Suc m)) key E = Ok E'"
    using E'(1) by simp
  moreover have "E' = E\<lparr>cy := cy E', cx := cx E'\<rparr>"
    by (subst E'(3), subst E1(6)) simp
  ultimately show ?case
    using E'(2) by blast
qed

lemma editorInsertChar_inv:
  assumes "cursor_inv E"
  shows "\<exists>E'. editorInsertChar c E = Ok E' \<and> cursor_inv E' \<and> numrows E \<le> numrows E' \<and>
           rowoff E' = rowoff E \<and> screenrows E' = screenrows E"
proof (cases "cy E = numrows E")
  case True
  with assms have "cx E = 0"
    by (simp add: cursor_inv_def)
  with True show ?thesis
    by (simp add: editorInsertChar_def editorAppendRow_def row_at_def numrows_def
        cursor_inv_def length_chars_editorRowInsertChar erow_size_def editorUpdateRow_def)
next
  case False
  with assms have in_doc: "0 \<le> cy E" "cy E < numrows E" "0 \<le> cx E"
      "cx E \<le> erow_size (row E ! nat (cy E))"
    by (simp_all add: cursor_inv_def)
  then have "nat (cy E) < length (row E)"
    by (simp add: numrows_def)
  with False in_doc show ?thesis
    by (simp add: editorInsertChar_def row_at_def numrows_def cursor_inv_def
        erow_size_editorRowInsertChar)
qed

lemma editorScroll_inv:
  assumes "cursor_inv E" "0 \<le> rowoff E" "1 \<le> screenrows E" "editorScroll E = Ok E'"
  shows "cursor_inv E' \<and> 0 \<le> rowoff E' \<and> rowoff E' \<le> numrows E' \<and>
         screenrows E' = screenrows E"
proof -
  from assms(4) obtain x where E':
    "E' = E\<lparr>rx := x,
            rowoff := (let ro = (if cy E < rowoff E then cy E else rowoff E)
                       in if cy E \<ge> ro + screenrows E then cy E - screenrows E + 1 else ro),
            coloff := (let co = (if x < coloff E then x else coloff E)
                       in if x \<ge> co + screencols E then x - screencols E + 1 else co)\<rparr>"
    by (rule editorScroll_Ok)
  from assms(1) have cy: "0 \<le> cy E" "cy E \<le> numrows E"
    by (simp_all add: cursor_inv_def)
  have "cursor_inv E'"
    using assms(1) by (simp add: E' cursor_inv_def numrows_def)
  moreover have "0 \<le> rowoff E'" "rowoff E' \<le> numrows E'"
    using assms(2,3) cy by (simp_all add: E' Let_def numrows_def)
  moreover have "screenrows E' = screenrows E"
    by (simp add: E')
  ultimately show ?thesis
    by simp
qed

text \<open>
  Which keys keep the cursor invariant, and from which states. HOME, END, the four
  arrows and the insertion of any other key need the cursor invariant only.
  PAGE_DOWN also needs \<open>0 \<le> rowoff\<close> and at least one screen row; PAGE_UP needs
  \<open>rowoff \<le> numrows\<close> as well, since nothing on its path cuts \<open>cy\<close> back to the
  document but the motions of its loop.
\<close>

lemma processKey_preserves_key:
  assumes "cursor_inv E" and not_quit: "c \<noteq> CTRL_KEY (of_char CHR ''q'')"
    and up: "c = PAGE_UP \<Longrightarrow> 0 \<le> rowoff E \<and> rowoff E \<le> numrows E \<and> 1 \<le> screenrows E"
    and down: "c = PAGE_DOWN \<Longrightarrow> 0 \<le> rowoff E \<and> 1 \<le> screenrows E"
  shows "\<exists>E'. processKey c E = Ok E' \<and> cursor_inv E' \<and> numrows E \<le> numrows E' \<and>
           rowoff E' = rowoff E \<and> screenrows E' = screenrows E"
proof -
  from assms(1) have cur: "0 \<le> cy E" "cy E \<le> numrows E" "0 \<le> cx E"
    by (simp_all add: cursor_inv_iff)
  let ?goal = "\<exists>E'. processKey c E = Ok E' \<and> cursor_inv E' \<and> numrows E \<le> numrows E' \<and>
      rowoff E' = rowoff E \<and> screenrows E' = screenrows E"
  consider (home) "c = HOME_KEY" | (end_key) "c = END_KEY" | (page_up) "c = PAGE_UP"
    | (page_down) "c = PAGE_DOWN"
    | (arrow) "c = ARROW_UP \<or> c = ARROW_DOWN \<or> c = ARROW_LEFT \<or> c = ARROW_RIGHT"
    | (other) "c \<noteq> HOME_KEY" "c \<noteq> END_KEY" "c \<noteq> PAGE_UP" "c \<noteq> PAGE_DOWN"
        "c \<noteq> ARROW_UP" "c \<noteq> ARROW_DOWN" "c \<noteq> ARROW_LEFT" "c \<noteq> ARROW_RIGHT"
    by blast
  then show ?goal
  proof cases
    case home
    have "processKey c E = Ok (E\<lparr>cx := 0\<rparr>)"
      using not_quit home by (simp add: processKey_def)
    moreover have "cursor_inv (E\<lparr>cx := 0\<rparr>)"
      using assms(1) by (simp add: cursor_inv_def numrows_def erow_size_def)
    ultimately show ?thesis
      by (simp add: numrows_def)
  next
    case end_key
    have "processKey c E =
        Ok (if cy E < numrows E then E\<lparr>cx := erow_size (row E ! nat (cy E))\<rparr> else E)"
      using not_quit end_key cur by (simp add: processKey_def row_at_def CTRL_KEY_q key_defs)
    moreover have
      "cursor_inv (if cy E < numrows E then E\<lparr>cx := erow_size (row E ! nat (cy E))\<rparr> else E)"
      using assms(1) by (simp add: cursor_inv_def numrows_def erow_size_def)
    ultimately show ?thesis
      by (auto simp: numrows_def)
  next
    case page_up
    from up [OF page_up] have window: "0 \<le> rowoff E" "rowoff E \<le> numrows E"
        "1 \<le> screenrows E"
      by simp_all
    let ?E1 = "E\<lparr>cy := rowoff E\<rparr>"
    have count: "screenrows E = 1 + int (nat (screenrows E - 1))"
      using window(3) by simp
    have "processKey c E = page_loop (screenrows E) ARROW_UP ?E1"
      using not_quit page_up by (simp add: processKey_def CTRL_KEY_q key_defs)
    moreover obtain E' where "page_loop (1 + int (nat (screenrows E - 1))) ARROW_UP ?E1 = Ok E'"
        "cursor_inv E'" "E' = ?E1\<lparr>cy := cy E', cx := cx E'\<rparr>"
      using page_loop_inv [of ?E1 "nat (screenrows E - 1)" ARROW_UP] window(1,2) cur(3)
      by (auto simp: numrows_def)
    moreover from this(3) have "numrows E' = numrows E \<and> rowoff E' = rowoff E \<and>
        screenrows E' = screenrows E"
      by (metis (no_types, lifting) editorConfig.select_convs(4,6,8) editorConfig.surjective
          editorConfig.update_convs(1,2) numrows_def)
    ultimately show ?thesis
      using count by simp
  next
    case page_down
    from down [OF page_down] have window: "0 \<le> rowoff E" "1 \<le> screenrows E"
      by simp_all
    let ?E1 = "E\<lparr>cy := min (rowoff E + screenrows E - 1) (numrows E)\<rparr>"
    have count: "screenrows E = 1 + int (nat (screenrows E - 1))"
      using window(2) by simp
    have "processKey c E = page_loop (screenrows E) ARROW_DOWN ?E1"
      using not_quit page_down
      by (simp add: processKey_def CTRL_KEY_q key_defs Let_def numrows_def min_def)
    moreover obtain E' where
        "page_loop (1 + int (nat (screenrows E - 1))) ARROW_DOWN ?E1 = Ok E'"
        "cursor_inv E'" "E' = ?E1\<lparr>cy := cy E', cx := cx E'\<rparr>"
      using page_loop_inv [of ?E1 "nat (screenrows E - 1)" ARROW_DOWN] window cur
      by (auto simp: numrows_def)
    moreover from this(3) have "numrows E' = numrows E \<and> rowoff E' = rowoff E \<and>
        screenrows E' = screenrows E"
      by (metis (no_types, lifting) editorConfig.select_convs(4,6,8) editorConfig.surjective
          editorConfig.update_convs(1,2) numrows_def)
    ultimately show ?thesis
      using count by simp
  next
    case arrow
    then have "processKey c E = editorMoveCursor c E"
      using not_quit by (auto simp: processKey_def CTRL_KEY_q key_defs)
    moreover obtain E' where "editorMoveCursor c E = Ok E'" "0 \<le> cy E'" "cy E' \<le> numrows E'"
        "cx E' \<le> cursor_rowlen E'" "0 \<le> cx E'" "E' = E\<lparr>cy := cy E', cx := cx E'\<rparr>"
      using editorMoveCursor_returns [OF cur(1,2), of c] cur(3) by blast
    moreover from this(6) have "numrows E' = numrows E \<and> rowoff E' = rowoff E \<and>
        screenrows E' = screenrows E"
      by (metis (no_types, lifting) editorConfig.select_convs(4,6,8) editorConfig.surjective
          editorConfig.update_convs(1,2) numrows_def)
    ultimately show ?thesis
      by (simp add: cursor_inv_iff)
  next
    case other
    then have "processKey c E = editorInsertChar c E"
      using not_quit by (simp add: processKey_def)
    then show ?thesis
      using editorInsertChar_inv [OF assms(1), of c] by simp
  qed
qed

lemma processKey_preserves:
  assumes "cursor_inv E" and "0 \<le> rowoff E" and "rowoff E \<le> numrows E"
    and "1 \<le> screenrows E"
  shows "(c = CTRL_KEY (of_char CHR ''q'') \<longrightarrow> processKey c E = Exit 0) \<and>
         (c \<noteq> CTRL_KEY (of_char CHR ''q'') \<longrightarrow>
            (\<exists>E'. processKey c E = Ok E' \<and> cursor_inv E' \<and> numrows E \<le> numrows E' \<and>
               rowoff E' = rowoff E \<and> screenrows E' = screenrows E))"
proof (intro conjI impI)
  assume "c = CTRL_KEY (of_char CHR ''q'')"
  then show "processKey c E = Exit 0"
    by (simp add: processKey_def)
next
  assume "c \<noteq> CTRL_KEY (of_char CHR ''q'')"
  with assms show "\<exists>E'. processKey c E = Ok E' \<and> cursor_inv E' \<and> numrows E \<le> numrows E' \<and>
      rowoff E' = rowoff E \<and> screenrows E' = screenrows E"
    by (intro processKey_preserves_key) simp_all
qed

lemma editorReadKey_wait_defined: "editorReadKey_wait inp \<noteq> Undefined"
  by (induction inp rule: editorReadKey_wait.induct) simp_all

lemma editorReadKey_defined: "editorReadKey inp \<noteq> Undefined"
proof (cases "editorReadKey_wait inp")
  case (Ok p)
  obtain c inp1 where p: "p = (c, inp1)"
    by (cases p)
  obtain a inp2 where r1: "read_seq inp1 = (a, inp2)"
    by (cases "read_seq inp1")
  obtain b inp3 where r2: "read_seq inp2 = (b, inp3)"
    by (cases "read_seq inp2")
  obtain d inp4 where r3: "read_seq inp3 = (d, inp4)"
    by (cases "read_seq inp3")
  show ?thesis
    by (simp add: editorReadKey_def Ok p r1 r2 r3 split: option.splits)
next
  case (Exit n)
  then show ?thesis by (simp add: editorReadKey_def)
next
  case Undefined
  then show ?thesis by (simp add: editorReadKey_wait_defined)
next
  case NoReturn
  then show ?thesis by (simp add: editorReadKey_def)
qed

lemma editorProcessKeypress_preserves:
  assumes "cursor_inv E" and "0 \<le> rowoff E" and "rowoff E \<le> numrows E"
    and "1 \<le> screenrows E"
  shows "editorProcessKeypress inp E \<noteq> Undefined \<and>
         (\<forall>E' inp'. editorProcessKeypress inp E = Ok (E', inp') \<longrightarrow>
            cursor_inv E' \<and> numrows E \<le> numrows E' \<and>
            rowoff E' = rowoff E \<and> screenrows E' = screenrows E)"
proof (cases "editorReadKey inp")
  case (Ok p)
  obtain c inp1 where p: "p = (c, inp1)"
    by (cases p)
  show ?thesis
  proof (cases "c = CTRL_KEY (of_char CHR ''q'')")
    case True
    then have "processKey c E = Exit 0"
      using processKey_preserves [OF assms, of c] by simp
    then show ?thesis
      by (simp add: editorProcessKeypress_def Ok p)
  next
    case False
    then obtain E1 where "processKey c E = Ok E1" "cursor_inv E1" "numrows E \<le> numrows E1"
        "rowoff E1 = rowoff E" "screenrows E1 = screenrows E"
      using processKey_preserves [OF assms, of c] by blast
    then show ?thesis
      by (simp add: editorProcessKeypress_def Ok p)
  qed
next
  case (Exit n)
  then show ?thesis by (simp add: editorProcessKeypress_def)
next
  case Undefined
  then show ?thesis by (simp add: editorReadKey_defined)
next
  case NoReturn
  then show ?thesis by (simp add: editorProcessKeypress_def)
qed

lemma editorProcessKeypress_byte:
  "b \<noteq> CHR 0x1B \<Longrightarrow> processKey (char_to_int b) E = Ok E' \<Longrightarrow>
   editorProcessKeypress (Byte b # inp) E = Ok (E', inp)"
  by (simp add: editorProcessKeypress_def editorReadKey_plain)

lemma editorProcessKeypress_bare_escape:
  "processKey (char_to_int (CHR 0x1B)) E = Ok E' \<Longrightarrow>
   editorProcessKeypress (Byte (CHR 0x1B) # Timeout # inp) E = Ok (E', inp)"
  by (simp add: editorProcessKeypress_def editorReadKey_def char_to_int_def)

text \<open>
  Claim C2. The dispatch of PAGE_UP breaks the cursor invariant in a session on a
  terminal two rows high with no file. \<open>initEditor\<close> sets \<open>screenrows = 0\<close>; the first
  \<open>editorScroll\<close> moves \<open>rowoff\<close> to 1, past the empty document; the state still
  satisfies the invariant. PAGE_UP copies \<open>rowoff\<close> into \<open>cy\<close> and its loop of motions
  runs zero times, so the cursor is left on row 1 of a document with no rows, and
  the next byte typed indexes \<open>E.row\<close> outside the array. PAGE_DOWN, from the same
  state, cuts \<open>cy\<close> back to \<open>numrows\<close> on its own path and keeps the invariant.
\<close>

theorem processKey_page_up_leaves_document:
  "initEditor (Some (2, 80)) = Ok tiny_init \<and>
   editorScroll tiny_init = Ok tiny_scrolled \<and>
   cursor_inv tiny_scrolled \<and>
   processKey PAGE_UP tiny_scrolled = Ok (tiny_scrolled\<lparr>cy := 1\<rparr>) \<and>
   editorProcessKeypress (esc_seq ''[5~'' []) tiny_scrolled = Ok (tiny_scrolled\<lparr>cy := 1\<rparr>, []) \<and>
   \<not> cursor_inv (tiny_scrolled\<lparr>cy := 1\<rparr>) \<and>
   processKey (char_to_int CHR ''a'') (tiny_scrolled\<lparr>cy := 1\<rparr>) = Undefined \<and>
   processKey PAGE_DOWN tiny_scrolled = Ok tiny_scrolled"
proof (intro conjI)
  show "initEditor (Some (2, 80)) = Ok tiny_init"
    by (simp add: initEditor_def tiny_init_def)
  show "editorScroll tiny_init = Ok tiny_scrolled"
    by (simp add: editorScroll_def tiny_scrolled_def tiny_init_def numrows_def Let_def)
  show "cursor_inv tiny_scrolled"
    by (simp add: cursor_inv_def tiny_scrolled_def tiny_init_def numrows_def)
  have "page_loop 0 ARROW_UP (tiny_scrolled\<lparr>cy := 1\<rparr>) = Ok (tiny_scrolled\<lparr>cy := 1\<rparr>)"
    by (subst page_loop.simps) simp
  then show up: "processKey PAGE_UP tiny_scrolled = Ok (tiny_scrolled\<lparr>cy := 1\<rparr>)"
    by (simp add: processKey_def CTRL_KEY_q key_defs tiny_scrolled_def tiny_init_def)
  have "editorReadKey (esc_seq ''[5~'' []) = Ok (PAGE_UP, [])"
    by (simp add: editorReadKey_def esc_seq_def char_to_int_def)
  with up show "editorProcessKeypress (esc_seq ''[5~'' []) tiny_scrolled
      = Ok (tiny_scrolled\<lparr>cy := 1\<rparr>, [])"
    by (simp add: editorProcessKeypress_def)
  show "\<not> cursor_inv (tiny_scrolled\<lparr>cy := 1\<rparr>)"
    by (simp add: cursor_inv_def tiny_scrolled_def tiny_init_def numrows_def)
  have "char_to_int CHR ''a'' = 97"
    by (simp add: char_to_int_def)
  then show "processKey (char_to_int CHR ''a'') (tiny_scrolled\<lparr>cy := 1\<rparr>) = Undefined"
    by (simp add: processKey_def CTRL_KEY_q key_defs editorInsertChar_def row_at_def
        numrows_def tiny_scrolled_def tiny_init_def)
  have "page_loop 0 ARROW_DOWN tiny_scrolled = Ok tiny_scrolled"
    by (subst page_loop.simps) simp
  then show "processKey PAGE_DOWN tiny_scrolled = Ok tiny_scrolled"
    by (simp add: processKey_def CTRL_KEY_q key_defs tiny_scrolled_def tiny_init_def
        numrows_def Let_def)
qed

text \<open>
  Claim C10. In a state that satisfies the cursor invariant, a key that is a byte
  other than Ctrl-Q (0x11) -- carriage return, backspace and 0x1B among them -- is
  inserted as that byte at column \<open>cx\<close> of row \<open>cy\<close>, in a new empty row appended first
  when \<open>cy = numrows\<close>; \<open>render\<close> of that row is recomputed, \<open>cx\<close> grows by one, and
  nothing else changes. This is what \<open>editorProcessKeypress\<close> does when it reads such
  a byte, the escape byte included when the read after it times out.
\<close>

theorem processKey_insert_byte:
  assumes "cursor_inv E" and "b \<noteq> CHR 0x11"
  shows "\<exists>E'. E' = E\<lparr>row :=
                   (if cy E = numrows E
                    then row E @ [editorUpdateRow \<lparr>chars = [b], render = []\<rparr>]
                    else (row E)[nat (cy E) :=
                           editorUpdateRow
                             ((row E ! nat (cy E))
                                \<lparr>chars := take (nat (cx E)) (chars (row E ! nat (cy E))) @ [b] @
                                          drop (nat (cx E)) (chars (row E ! nat (cy E)))\<rparr>)]),
                 cx := cx E + 1\<rparr> \<and>
           processKey (char_to_int b) E = Ok E' \<and>
           (b \<noteq> CHR 0x1B \<longrightarrow> editorProcessKeypress (Byte b # inp) E = Ok (E', inp)) \<and>
           (b = CHR 0x1B \<longrightarrow>
              editorProcessKeypress (Byte b # Timeout # inp) E = Ok (E', inp))"
proof -
  have range: "- 128 \<le> char_to_int b \<and> char_to_int b < 128"
    by (rule char_to_int_range)
  have "char_to_int b \<noteq> 17"
    using assms(2) char_to_int_ctrl_q by blast
  with range have "processKey (char_to_int b) E = editorInsertChar (char_to_int b) E"
    by (simp add: processKey_def CTRL_KEY_q key_defs)
  also have "\<dots> = Ok (E\<lparr>row :=
                   (if cy E = numrows E
                    then row E @ [editorUpdateRow \<lparr>chars = [b], render = []\<rparr>]
                    else (row E)[nat (cy E) :=
                           editorUpdateRow
                             ((row E ! nat (cy E))
                                \<lparr>chars := take (nat (cx E)) (chars (row E ! nat (cy E))) @ [b] @
                                          drop (nat (cx E)) (chars (row E ! nat (cy E)))\<rparr>)]),
                 cx := cx E + 1\<rparr>)"
  proof (cases "cy E = numrows E")
    case True
    with assms(1) have "cx E = 0"
      by (simp add: cursor_inv_def)
    with True show ?thesis
      by (simp add: editorInsertChar_def editorAppendRow_def row_at_def numrows_def
          editorRowInsertChar_def editorUpdateRow_def erow_size_def char_to_int_inverse)
  next
    case False
    with assms(1) have "0 \<le> cy E" "cy E < numrows E" "0 \<le> cx E"
        "cx E \<le> erow_size (row E ! nat (cy E))"
      by (simp_all add: cursor_inv_def)
    with False show ?thesis
      by (simp add: editorInsertChar_def row_at_def editorRowInsertChar_def Let_def
          char_to_int_inverse)
  qed
  finally have key: "processKey (char_to_int b) E = Ok (E\<lparr>row :=
                   (if cy E = numrows E
                    then row E @ [editorUpdateRow \<lparr>chars = [b], render = []\<rparr>]
                    else (row E)[nat (cy E) :=
                           editorUpdateRow
                             ((row E ! nat (cy E))
                                \<lparr>chars := take (nat (cx E)) (chars (row E ! nat (cy E))) @ [b] @
                                          drop (nat (cx E)) (chars (row E ! nat (cy E)))\<rparr>)]),
                 cx := cx E + 1\<rparr>)" .
  show ?thesis
  proof (intro exI conjI impI)
    show "processKey (char_to_int b) E = Ok (E\<lparr>row :=
                   (if cy E = numrows E
                    then row E @ [editorUpdateRow \<lparr>chars = [b], render = []\<rparr>]
                    else (row E)[nat (cy E) :=
                           editorUpdateRow
                             ((row E ! nat (cy E))
                                \<lparr>chars := take (nat (cx E)) (chars (row E ! nat (cy E))) @ [b] @
                                          drop (nat (cx E)) (chars (row E ! nat (cy E)))\<rparr>)]),
                 cx := cx E + 1\<rparr>)"
      by (rule key)
    then show "editorProcessKeypress (Byte b # inp) E = Ok (E\<lparr>row :=
                   (if cy E = numrows E
                    then row E @ [editorUpdateRow \<lparr>chars = [b], render = []\<rparr>]
                    else (row E)[nat (cy E) :=
                           editorUpdateRow
                             ((row E ! nat (cy E))
                                \<lparr>chars := take (nat (cx E)) (chars (row E ! nat (cy E))) @ [b] @
                                          drop (nat (cx E)) (chars (row E ! nat (cy E)))\<rparr>)]),
                 cx := cx E + 1\<rparr>, inp)" if "b \<noteq> CHR 0x1B"
      using that by (intro editorProcessKeypress_byte)
    show "editorProcessKeypress (Byte b # Timeout # inp) E = Ok (E\<lparr>row :=
                   (if cy E = numrows E
                    then row E @ [editorUpdateRow \<lparr>chars = [b], render = []\<rparr>]
                    else (row E)[nat (cy E) :=
                           editorUpdateRow
                             ((row E ! nat (cy E))
                                \<lparr>chars := take (nat (cx E)) (chars (row E ! nat (cy E))) @ [b] @
                                          drop (nat (cx E)) (chars (row E ! nat (cy E)))\<rparr>)]),
                 cx := cx E + 1\<rparr>, inp)" if "b = CHR 0x1B"
      using key unfolding that by (intro editorProcessKeypress_bare_escape)
  qed simp
qed

theorem processKey_insert_byte_witness:
  "cursor_inv scroll_example \<and> CHR 0x1B \<noteq> CHR 0x11 \<and> char_to_int (CHR 0x1B) = 27 \<and>
   processKey 27 scroll_example =
     Ok (scroll_example
          \<lparr>row := [\<lparr>chars = ''abc'', render = ''abc''\<rparr>,
                   \<lparr>chars = [CHR ''a'', CHR 0x09, CHR ''b'', CHR 0x1B],
                    render = [CHR ''a'', CHR '' '', CHR '' '', CHR '' '', CHR ''b'', CHR 0x1B]\<rparr>],
           cx := 4\<rparr>)"
proof -
  have inv: "cursor_inv scroll_example"
    by (simp add: scroll_example_def cursor_inv_def numrows_def erow_size_def)
  have key: "CHR 0x1B \<noteq> CHR 0x11"
    by simp
  have val: "char_to_int (CHR 0x1B) = 27"
    by (simp add: char_to_int_def)
  have fill: "tab_fill [CHR ''a'', CHR '' ''] = [CHR ''a'', CHR '' '', CHR '' '', CHR '' '']"
    by code_simp
  have "processKey 27 scroll_example =
     Ok (scroll_example
          \<lparr>row := [\<lparr>chars = ''abc'', render = ''abc''\<rparr>,
                   \<lparr>chars = [CHR ''a'', CHR 0x09, CHR ''b'', CHR 0x1B],
                    render = [CHR ''a'', CHR '' '', CHR '' '', CHR '' '', CHR ''b'', CHR 0x1B]\<rparr>],
           cx := 4\<rparr>)"
    using processKey_insert_byte [OF inv key]
    by (simp add: val fill scroll_example_def numrows_def editorUpdateRow_def)
  with inv key val show ?thesis
    by simp
qed

section \<open>A session\<close>

lemma three_lines_stripped:
  "map strip_eol three_lines = [''abc'', [CHR 0x09, CHR ''x''], []]"
  by (simp add: three_lines_def strip_eol.simps)

lemma three_lines_editorOpen:
  "initEditor (Some (rows, cols)) = Ok E0 \<Longrightarrow>
   editorOpen name (Some three_lines) E0 = Ok (three_lines_loaded name rows cols)"
proof -
  assume "initEditor (Some (rows, cols)) = Ok E0"
  then have E0: "E0 = \<lparr>cx = 0, cy = 0, rx = 0, rowoff = 0, coloff = 0,
              screenrows = rows - 2, screencols = cols,
              row = [], filename = None, statusmsg = [], statusmsg_time = 0\<rparr>"
    by (simp add: initEditor_def)
  have strip: "strip_eol [CHR ''a'', CHR ''b'', CHR ''c'', CHR 0x0A] = ''abc''"
      "strip_eol [CHR 0x09, CHR ''x'', CHR 0x0A] = [CHR 0x09, CHR ''x'']"
      "strip_eol [CHR 0x0A] = []"
    by (simp_all add: strip_eol.simps)
  have fill: "tab_fill [CHR '' ''] = ''    ''"
    by code_simp
  show ?thesis
    by (simp add: E0 editorOpen_def three_lines_def strip editorAppendRow_def
        editorUpdateRow_def fill three_lines_loaded_def)
qed

text \<open>
  Every round of the main loop keeps the cursor invariant, as long as the screen has
  at least one text row.
\<close>

lemma main_loop_cursor_inv:
  assumes "main_loop n inp E = Ok (E', inp')" "cursor_inv E" "0 \<le> rowoff E"
    "1 \<le> screenrows E"
  shows "cursor_inv E' \<and> 0 \<le> rowoff E' \<and> 1 \<le> screenrows E'"
  using assms
proof (induction n arbitrary: inp E)
  case 0
  then show ?case by simp
next
  case (Suc n)
  from Suc.prems(1) obtain E1 where E1: "editorScroll E = Ok E1"
    by (auto split: result.splits)
  with Suc.prems(1) obtain E2 inp1 where step: "editorProcessKeypress inp E1 = Ok (E2, inp1)"
      and rest: "main_loop n inp1 E2 = Ok (E', inp')"
    by (auto split: result.splits)
  from step obtain c where c: "processKey c E1 = Ok E2"
    by (auto simp: editorProcessKeypress_def split: result.splits prod.splits)
  from editorScroll_inv [OF Suc.prems(2,3,4) E1]
  have E1_inv: "cursor_inv E1" "0 \<le> rowoff E1" "rowoff E1 \<le> numrows E1" "1 \<le> screenrows E1"
    using Suc.prems(4) by simp_all
  from processKey_preserves [OF E1_inv, of c] c
  have "cursor_inv E2 \<and> rowoff E2 = rowoff E1 \<and> screenrows E2 = screenrows E1"
    by (cases "c = CTRL_KEY (of_char CHR ''q'')") auto
  with E1_inv have "cursor_inv E2" "0 \<le> rowoff E2" "1 \<le> screenrows E2"
    by simp_all
  with rest show ?case
    by (rule Suc.IH)
qed

text \<open>
  Claim C9. A file of the three lines \<open>abc\<close>, tab and \<open>x\<close>, and the empty line is loaded
  into three rows with the cursor at \<open>(0, 0)\<close>, on a screen of any size. Dispatching
  END, ARROW_DOWN, END leaves the cursor at \<open>cx = 2\<close>, the raw length of the second
  line, on row \<open>cy = 1\<close>. The same holds when the three keys arrive as the escape
  sequences \<open>ESC [ F\<close>, \<open>ESC [ B\<close>, \<open>ESC [ F\<close> through three rounds of the main loop
  on an 80 by 24 terminal.
\<close>

theorem end_down_end_scenario:
  "initEditor (Some (rows, cols)) =
     Ok \<lparr>cx = 0, cy = 0, rx = 0, rowoff = 0, coloff = 0,
         screenrows = rows - 2, screencols = cols,
         row = [], filename = None, statusmsg = [], statusmsg_time = 0\<rparr> \<and>
   editorOpen name (Some three_lines)
     \<lparr>cx = 0, cy = 0, rx = 0, rowoff = 0, coloff = 0,
      screenrows = rows - 2, screencols = cols,
      row = [], filename = None, statusmsg = [], statusmsg_time = 0\<rparr>
     = Ok (three_lines_loaded name rows cols) \<and>
   processKeys [END_KEY, ARROW_DOWN, END_KEY] (three_lines_loaded name rows cols)
     = Ok (three_lines_loaded name rows cols\<lparr>cx := 2, cy := 1\<rparr>) \<and>
   erow_size (row (three_lines_loaded name rows cols) ! 1) = 2 \<and>
   main_loop 3 (esc_seq ''[F'' (esc_seq ''[B'' (esc_seq ''[F'' rest)))
       (three_lines_loaded name 24 80)
     = Ok (three_lines_loaded name 24 80\<lparr>cx := 2, cy := 1, rx := 5\<rparr>, rest)"
proof (intro conjI)
  show init: "initEditor (Some (rows, cols)) =
     Ok \<lparr>cx = 0, cy = 0, rx = 0, rowoff = 0, coloff = 0,
         screenrows = rows - 2, screencols = cols,
         row = [], filename = None, statusmsg = [], statusmsg_time = 0\<rparr>"
    by (simp add: initEditor_def)
  then show "editorOpen name (Some three_lines)
     \<lparr>cx = 0, cy = 0, rx = 0, rowoff = 0, coloff = 0,
      screenrows = rows - 2, screencols = cols,
      row = [], filename = None, statusmsg = [], statusmsg_time = 0\<rparr>
     = Ok (three_lines_loaded name rows cols)"
    by (rule three_lines_editorOpen)
  have end0: "processKey END_KEY (three_lines_loaded name rows cols)
      = Ok (three_lines_loaded name rows cols\<lparr>cx := 3\<rparr>)"
    by (simp add: processKey_def CTRL_KEY_q key_defs three_lines_loaded_def row_at_def
        numrows_def erow_size_def)
  have down: "processKey ARROW_DOWN (three_lines_loaded name rows cols\<lparr>cx := 3\<rparr>)
      = Ok (three_lines_loaded name rows cols\<lparr>cx := 2, cy := 1\<rparr>)"
    by (simp add: processKey_def CTRL_KEY_q key_defs three_lines_loaded_def row_at_def
        numrows_def erow_size_def editorMoveCursor_def editorMoveCursor_switch_def
        editorMoveCursor_snap_def)
  have end1: "processKey END_KEY (three_lines_loaded name rows cols\<lparr>cx := 2, cy := 1\<rparr>)
      = Ok (three_lines_loaded name rows cols\<lparr>cx := 2, cy := 1\<rparr>)"
    by (simp add: processKey_def CTRL_KEY_q key_defs three_lines_loaded_def row_at_def
        numrows_def erow_size_def)
  show "processKeys [END_KEY, ARROW_DOWN, END_KEY] (three_lines_loaded name rows cols)
     = Ok (three_lines_loaded name rows cols\<lparr>cx := 2, cy := 1\<rparr>)"
    by (simp add: end0 down end1)
  show "erow_size (row (three_lines_loaded name rows cols) ! 1) = 2"
    by (simp add: three_lines_loaded_def erow_size_def)
  show "main_loop 3 (esc_seq ''[F'' (esc_seq ''[B'' (esc_seq ''[F'' rest)))
       (three_lines_loaded name 24 80)
     = Ok (three_lines_loaded name 24 80\<lparr>cx := 2, cy := 1, rx := 5\<rparr>, rest)"
  proof -
    let ?L = "three_lines_loaded name 24 80"
    have rx0: "editorRowCxToRx \<lparr>chars = ''abc'', render = ''abc''\<rparr> 0 = Ok 0"
      and rx1: "editorRowCxToRx \<lparr>chars = ''abc'', render = ''abc''\<rparr> 3 = Ok 3"
      and rx2: "editorRowCxToRx \<lparr>chars = [CHR 0x09, CHR ''x''], render = ''    x''\<rparr> 2 = Ok 5"
      by code_simp+
    have scroll1: "editorScroll ?L = Ok ?L"
      by (simp add: editorScroll_def row_at_def numrows_def three_lines_loaded_def Let_def rx0)
    have scroll2: "editorScroll (?L\<lparr>cx := 3\<rparr>) = Ok (?L\<lparr>cx := 3, rx := 3\<rparr>)"
      by (simp add: editorScroll_def row_at_def numrows_def three_lines_loaded_def Let_def rx1)
    have scroll3: "editorScroll (?L\<lparr>cx := 2, cy := 1, rx := 3\<rparr>)
        = Ok (?L\<lparr>cx := 2, cy := 1, rx := 5\<rparr>)"
      by (simp add: editorScroll_def row_at_def numrows_def three_lines_loaded_def Let_def rx2)
    have key1: "processKey END_KEY ?L = Ok (?L\<lparr>cx := 3\<rparr>)"
      by (simp add: processKey_def CTRL_KEY_q key_defs three_lines_loaded_def row_at_def
          numrows_def erow_size_def)
    have key2: "processKey ARROW_DOWN (?L\<lparr>cx := 3, rx := 3\<rparr>)
        = Ok (?L\<lparr>cx := 2, cy := 1, rx := 3\<rparr>)"
      by (simp add: processKey_def CTRL_KEY_q key_defs three_lines_loaded_def row_at_def
          numrows_def erow_size_def editorMoveCursor_def editorMoveCursor_switch_def
          editorMoveCursor_snap_def)
    have key3: "processKey END_KEY (?L\<lparr>cx := 2, cy := 1, rx := 5\<rparr>)
        = Ok (?L\<lparr>cx := 2, cy := 1, rx := 5\<rparr>)"
      by (simp add: processKey_def CTRL_KEY_q key_defs three_lines_loaded_def row_at_def
          numrows_def erow_size_def)
    have read_end: "editorReadKey (esc_seq ''[F'' inp) = Ok (END_KEY, inp)" for inp
      by (simp add: editorReadKey_def esc_seq_def char_to_int_def)
    have read_down: "editorReadKey (esc_seq ''[B'' inp) = Ok (ARROW_DOWN, inp)" for inp
      by (simp add: editorReadKey_def esc_seq_def char_to_int_def)
    have "main_loop (Suc (Suc (Suc 0))) (esc_seq ''[F'' (esc_seq ''[B'' (esc_seq ''[F'' rest))) ?L
        = Ok (?L\<lparr>cx := 2, cy := 1, rx := 5\<rparr>, rest)"
      by (simp add: editorProcessKeypress_def read_end read_down scroll1 scroll2 scroll3
          key1 key2 key3)
    then show ?thesis
      by (simp add: numeral_3_eq_3)
  qed
qed

end
